theory Spec2Isabelle
  imports Main "HOL-Library.AList"
begin

section \<open>JavaScript strings\<close>

text \<open>
  Strings are lists of \<^typ>\<open>char\<close>. The functions below are the ASCII part of the
  JavaScript built-ins the sources call: \<open>String.prototype.trim\<close>,
  \<open>toLowerCase\<close>, \<open>startsWith\<close>, \<open>includes\<close>, \<open>split('\n')\<close> and
  \<open>Array.prototype.join\<close>.
\<close>

definition isSpace :: "char \<Rightarrow> bool" where
  "isSpace c = (c = CHR '' '' \<or> c = CHR 0x09 \<or> c = CHR 0x0A \<or> c = CHR 0x0B
                \<or> c = CHR 0x0C \<or> c = CHR 0x0D)"

definition trim :: "string \<Rightarrow> string" where
  "trim s = rev (dropWhile isSpace (rev (dropWhile isSpace s)))"

definition lowerChar :: "char \<Rightarrow> char" where
  "lowerChar c =
     (let n = (of_char c :: nat) in if 65 \<le> n \<and> n \<le> 90 then char_of (n + 32) else c)"

definition toLowerCase :: "string \<Rightarrow> string" where
  "toLowerCase s = map lowerChar s"

fun startsWith :: "string \<Rightarrow> string \<Rightarrow> bool" where
  "startsWith s [] = True"
| "startsWith [] (p # ps) = False"
| "startsWith (c # cs) (p # ps) = (c = p \<and> startsWith cs ps)"

fun str_includes :: "string \<Rightarrow> string \<Rightarrow> bool" where
  "str_includes [] p = (p = [])"
| "str_includes (c # cs) p = (startsWith (c # cs) p \<or> str_includes cs p)"

section \<open>JavaScript errors\<close>

text \<open>
  What \<open>throw\<close> and \<open>catch\<close> carry: a \<open>DOMException\<close> (name, message), an \<open>Error\<close>
  (message, optional \<open>code\<close>), or any other value (optional \<open>code\<close>, its text).
\<close>

datatype js_error =
    DOMException string string
  | Error string "string option"
  | Thrown "string option" string

definition TypeError :: js_error where
  "TypeError = Error ''TypeError'' None"

section \<open>Trigger rules and events (src/triggers/base.ts, config/schema.ts)\<close>

datatype EventType = Issue | Comment

datatype Operation = Create | Update | Remove

datatype TriggerType = Label | Hashtag | Mention

datatype TriggerAction = Full | Quick | ContextOnly | Guide | Plan | Reply | Review | Github

record TriggerConfig =
  trigger_type :: TriggerType
  trigger_value :: string
  trigger_action :: TriggerAction
  trigger_agent :: "string option"
  trigger_on :: "Operation list option"

record TriggerLabel =
  label_id :: string
  label_name :: string

record IssueContext =
  issue_id :: string
  labels :: "string list option"
  labelsDetailed :: "TriggerLabel list option"
  labelIds :: "string list option"
  updatedFromLabelIds :: "string list option"

record CommentContext =
  comment_id :: string
  comment_body :: string

record TriggerContext =
  eventType :: EventType
  ctx_action :: Operation
  issue :: IssueContext
  comment :: "CommentContext option"



subsection \<open>The label evaluator (src/triggers/label.ts)\<close>

definition wantedLabel :: "TriggerConfig \<Rightarrow> string" where
  "wantedLabel trigger = toLowerCase (trim (trigger_value trigger))"

text \<open>\<open>context.issue.labelIds ?? context.issue.labelsDetailed?.map(label => label.id) ?? []\<close>\<close>

definition currentLabelIds :: "TriggerContext \<Rightarrow> string list" where
  "currentLabelIds context =
     (case labelIds (issue context) of
        Some ids \<Rightarrow> ids
      | None \<Rightarrow> (case labelsDetailed (issue context) of
                   Some ls \<Rightarrow> map label_id ls
                 | None \<Rightarrow> []))"

text \<open>\<open>context.issue.labelsDetailed?.find(label => label.name.trim().toLowerCase() === wanted)?.id\<close>\<close>

definition wantedLabelId :: "string \<Rightarrow> TriggerContext \<Rightarrow> string option" where
  "wantedLabelId wanted context =
     (case labelsDetailed (issue context) of
        None \<Rightarrow> None
      | Some ls \<Rightarrow>
          map_option label_id (find (\<lambda>l. toLowerCase (trim (label_name l)) = wanted) ls))"

definition label_matches :: "TriggerConfig \<Rightarrow> TriggerContext \<Rightarrow> bool" where
  "label_matches trigger context =
     (if eventType context \<noteq> Issue then False
      else let wanted = wantedLabel trigger in
        if wanted = [] then False
        else let ls = (case labels (issue context) of None \<Rightarrow> [] | Some l \<Rightarrow> l);
                 hasLabel = list_ex (\<lambda>l. toLowerCase (trim l) = wanted) ls in
          if \<not> hasLabel then False
          else if ctx_action context \<noteq> Update then True
          else (case updatedFromLabelIds (issue context) of
                  None \<Rightarrow> False
                | Some previousLabelIds \<Rightarrow>
                    (case wantedLabelId wanted context of
                       None \<Rightarrow> False
                     | Some labelId \<Rightarrow>
                         if labelId = [] then False
                         else labelId \<notin> set previousLabelIds
                              \<and> labelId \<in> set (currentLabelIds context))))"


subsection \<open>The hashtag and mention evaluators (src/triggers/hashtag.ts, mention.ts)\<close>









subsection \<open>The registry and the matcher (plugins/registry.ts, src/triggers/matcher.ts)\<close>








section \<open>The Linear webhook boundary (the webhook module, listed as src/types.ts)\<close>

subsection \<open>Payloads (src/types.ts)\<close>

record LinearIssueData =
  issueData_id :: string
  issueData_title :: string
  issueData_description :: "string option"
  issueData_identifier :: "string option"
  issueData_labels :: "TriggerLabel list option"
  issueData_labelIds :: "string list option"

record LinearCommentData =
  commentData_id :: string
  commentData_body :: string
  commentData_issueId :: string

text \<open>
  \<open>data: z.union([LinearCommentDataSchema, LinearIssueDataSchema])\<close>: the parsed data
  is the output of the first schema that accepts it, the comment schema first.
\<close>

datatype PayloadData = CommentData LinearCommentData | IssueData LinearIssueData

record LinearWebhookPayload =
  payload_action :: Operation
  payload_type :: EventType
  payload_data :: PayloadData
  payload_updatedFrom_labelIds :: "string list option"
  payload_webhookId :: "string option"

fun data_id :: "PayloadData \<Rightarrow> string" where
  "data_id (CommentData c) = commentData_id c"
| "data_id (IssueData i) = issueData_id i"

fun typeName :: "EventType \<Rightarrow> string" where
  "typeName Issue = ''Issue''"
| "typeName Comment = ''Comment''"

fun actionName :: "Operation \<Rightarrow> string" where
  "actionName Create = ''create''"
| "actionName Update = ''update''"
| "actionName Remove = ''remove''"

subsection \<open>The deduplication cache of Linear events\<close>

text \<open>
  \<open>processedEvents\<close> is a \<open>Map<string, number>\<close>: an association list with distinct
  keys in insertion order, so that its length is \<open>Map.size\<close>. The clock readings
  (\<open>Date.now()\<close>, milliseconds) are arguments.
\<close>

type_synonym cache = "(string \<times> int) list"

definition DEDUP_WINDOW_MS :: int where
  "DEDUP_WINDOW_MS = 30000"

definition getDeduplicationKey :: "string \<Rightarrow> string \<Rightarrow> string \<Rightarrow> string" where
  "getDeduplicationKey ty action dataId = ty @ '':'' @ action @ '':'' @ dataId"

text \<open>The clean-up loop deletes the entries with \<open>now - timestamp > window\<close>.\<close>

definition evictExpired :: "int \<Rightarrow> int \<Rightarrow> cache \<Rightarrow> cache" where
  "evictExpired window now m = filter (\<lambda>(k, timestamp). \<not> (now - timestamp > window)) m"

text \<open>\<open>processedAt && now - processedAt < DEDUP_WINDOW_MS\<close>: the number 0 is falsy.\<close>

definition isDuplicateEvent :: "int \<Rightarrow> string \<Rightarrow> cache \<Rightarrow> bool \<times> cache" where
  "isDuplicateEvent now key processedEvents =
     (if (case map_of processedEvents key of
            None \<Rightarrow> False
          | Some processedAt \<Rightarrow> processedAt \<noteq> 0 \<and> now - processedAt < DEDUP_WINDOW_MS)
      then (True, processedEvents)
      else (False, if length processedEvents > 1000
                   then evictExpired DEDUP_WINDOW_MS now processedEvents
                   else processedEvents))"

definition markEventProcessed :: "int \<Rightarrow> string \<Rightarrow> cache \<Rightarrow> cache" where
  "markEventProcessed now key processedEvents = AList.update key now processedEvents"

text \<open>
  The seen-check of the handler: \<open>if (isDuplicateEvent(dedupKey)) return ...\<close> followed by
  \<open>markEventProcessed(dedupKey)\<close>. The two functions read the clock separately.
\<close>

definition linearSeen :: "int \<times> int \<Rightarrow> string \<Rightarrow> cache \<Rightarrow> bool \<times> cache" where
  "linearSeen clock key processedEvents =
     (case isDuplicateEvent (fst clock) key processedEvents of
        (True, m) \<Rightarrow> (True, m)
      | (False, m) \<Rightarrow> (False, markEventProcessed (snd clock) key m))"

fun linearSeenAll :: "((int \<times> int) \<times> string) list \<Rightarrow> cache \<Rightarrow> cache" where
  "linearSeenAll [] m = m"
| "linearSeenAll ((clock, key) # calls) m = linearSeenAll calls (snd (linearSeen clock key m))"

subsection \<open>The deduplication cache of GitHub deliveries (github webhook module)\<close>

definition GITHUB_DEDUP_WINDOW_MS :: int where
  "GITHUB_DEDUP_WINDOW_MS = 5 * 60000"

definition isDuplicateGithubDelivery :: "int \<Rightarrow> string \<Rightarrow> cache \<Rightarrow> bool \<times> cache" where
  "isDuplicateGithubDelivery now deliveryId processedGithubDeliveries =
     (if (case map_of processedGithubDeliveries deliveryId of
            None \<Rightarrow> False
          | Some processedAt \<Rightarrow> processedAt \<noteq> 0 \<and> now - processedAt < GITHUB_DEDUP_WINDOW_MS)
      then (True, processedGithubDeliveries)
      else (False,
            AList.update deliveryId now
              (if length processedGithubDeliveries > 2000
               then evictExpired GITHUB_DEDUP_WINDOW_MS now processedGithubDeliveries
               else processedGithubDeliveries)))"

fun githubSeenAll :: "(int \<times> string) list \<Rightarrow> cache \<Rightarrow> cache" where
  "githubSeenAll [] m = m"
| "githubSeenAll ((now, key) # calls) m =
     githubSeenAll calls (snd (isDuplicateGithubDelivery now key m))"

subsection \<open>The webhook handler\<close>

text \<open>
  \<open>deliveryId ? `delivery:${deliveryId}` : payload.webhookId ? `webhook:${payload.webhookId}`
  : getDeduplicationKey(payload.type, payload.action, payload.data.id)\<close>; the empty string
  is falsy.
\<close>

definition truthyString :: "string option \<Rightarrow> bool" where
  "truthyString v = (case v of None \<Rightarrow> False | Some s \<Rightarrow> s \<noteq> [])"

definition dedupKey :: "string option \<Rightarrow> LinearWebhookPayload \<Rightarrow> string" where
  "dedupKey deliveryId payload =
     (if truthyString deliveryId then ''delivery:'' @ the deliveryId
      else if truthyString (payload_webhookId payload)
           then ''webhook:'' @ the (payload_webhookId payload)
           else getDeduplicationKey (typeName (payload_type payload))
                  (actionName (payload_action payload)) (data_id (payload_data payload)))"







datatype Response =
    InvalidSignature | InvalidPayload | DuplicateEvent | InvalidIssueData | NoTriggerMatch
  | NotACreateEvent | InvalidCommentData | NoTrigger | Processing TriggerType






text \<open>
  The handler answers with a response (\<open>Inr\<close>) or throws (\<open>Inl\<close>): it has no
  \<open>try\<close> around \<open>matchTriggers\<close>.
\<close>

type_synonym answer = "js_error + Response"





section \<open>Permission policy (src/sandbox.ts)\<close>

subsection \<open>JavaScript values\<close>

text \<open>
  The metadata of a permission request is untyped (\<open>unknown\<close>): any JSON-like value.
  Objects are association lists read with \<^const>\<open>map_of\<close>. The payload of a number
  only matters for its truthiness.
\<close>

datatype json =
    JUndefined | JNull | JBool bool | JNum int | JStr string
  | JArr "json list" | JObj "(string \<times> json) list"

fun falsy :: "json \<Rightarrow> bool" where
  "falsy JUndefined = True"
| "falsy JNull = True"
| "falsy (JBool b) = (\<not> b)"
| "falsy (JNum n) = (n = 0)"
| "falsy (JStr s) = (s = [])"
| "falsy v = False"

text \<open>\<open>typeof v === 'object'\<close>\<close>

fun typeofObject :: "json \<Rightarrow> bool" where
  "typeofObject JNull = True"
| "typeofObject (JArr vs) = True"
| "typeofObject (JObj kvs) = True"
| "typeofObject v = False"

text \<open>
  \<open>v.p\<close> throws on \<open>undefined\<close> and \<open>null\<close>; \<open>v?.p\<close> yields \<open>undefined\<close> there.
  The property names read by the sources are defined on objects only.
\<close>

fun getProp :: "json \<Rightarrow> string \<Rightarrow> js_error + json" where
  "getProp JUndefined p = Inl TypeError"
| "getProp JNull p = Inl TypeError"
| "getProp (JObj kvs) p = Inr (case map_of kvs p of None \<Rightarrow> JUndefined | Some v \<Rightarrow> v)"
| "getProp v p = Inr JUndefined"

fun optProp :: "json \<Rightarrow> string \<Rightarrow> json" where
  "optProp (JObj kvs) p = (case map_of kvs p of None \<Rightarrow> JUndefined | Some v \<Rightarrow> v)"
| "optProp v p = JUndefined"

subsection \<open>Regular expression literals\<close>

text \<open>
  The regular expressions written as literals in sandbox.ts use only: literal text,
  \<open>\b\<close>, \<open>\s+\<close>, \<open>.*\<close>, \<open>^\<close>, grouping and alternation, all with the flag \<open>i\<close>.
  \<open>rx_step r (prev, rest)\<close> lists the states in which a match of \<open>r\<close> can end when
  it starts before \<open>rest\<close> and after the character \<open>prev\<close>.
\<close>

datatype rx = Lit string | WordBoundary | Space1 | AnyStar | Bol | Alt "rx list" | Seq "rx list"

type_synonym rx_state = "char option \<times> string"

definition isWordChar :: "char \<Rightarrow> bool" where
  "isWordChar c =
     (let n = (of_char c :: nat)
      in (48 \<le> n \<and> n \<le> 57) \<or> (65 \<le> n \<and> n \<le> 90) \<or> (97 \<le> n \<and> n \<le> 122) \<or> n = 95)"

definition isLineTerminator :: "char \<Rightarrow> bool" where
  "isLineTerminator c = (c = CHR 0x0A \<or> c = CHR 0x0D)"

definition wordBefore :: "rx_state \<Rightarrow> bool" where
  "wordBefore st = (case fst st of None \<Rightarrow> False | Some c \<Rightarrow> isWordChar c)"

definition wordAfter :: "rx_state \<Rightarrow> bool" where
  "wordAfter st = (case snd st of [] \<Rightarrow> False | c # cs \<Rightarrow> isWordChar c)"

fun litStep :: "string \<Rightarrow> rx_state \<Rightarrow> rx_state list" where
  "litStep [] st = [st]"
| "litStep (l # ls) (prev, []) = []"
| "litStep (l # ls) (prev, c # cs) =
     (if lowerChar c = lowerChar l then litStep ls (Some c, cs) else [])"

text \<open>The states after one or more characters that satisfy \<open>P\<close>.\<close>

fun plusStep :: "(char \<Rightarrow> bool) \<Rightarrow> rx_state \<Rightarrow> rx_state list" where
  "plusStep P (prev, []) = []"
| "plusStep P (prev, c # cs) = (if P c then (Some c, cs) # plusStep P (Some c, cs) else [])"

fun rx_step :: "rx \<Rightarrow> rx_state \<Rightarrow> rx_state list" where
  "rx_step (Lit l) st = litStep l st"
| "rx_step WordBoundary st = (if wordBefore st \<noteq> wordAfter st then [st] else [])"
| "rx_step Space1 st = plusStep isSpace st"
| "rx_step AnyStar st = st # plusStep (\<lambda>c. \<not> isLineTerminator c) st"
| "rx_step Bol st = (if fst st = None then [st] else [])"
| "rx_step (Alt rs) st = concat (map (\<lambda>r. rx_step r st) rs)"
| "rx_step (Seq []) st = [st]"
| "rx_step (Seq (r # rs)) st = concat (map (rx_step (Seq rs)) (rx_step r st))"

fun startStates :: "char option \<Rightarrow> string \<Rightarrow> rx_state list" where
  "startStates prev [] = [(prev, [])]"
| "startStates prev (c # cs) = (prev, c # cs) # startStates (Some c) cs"

text \<open>\<open>re.test(s)\<close>: a match may start at any position of \<open>s\<close>.\<close>

definition rx_test :: "rx \<Rightarrow> string \<Rightarrow> bool" where
  "rx_test r s = list_ex (\<lambda>st. rx_step r st \<noteq> []) (startStates None s)"

subsection \<open>The decision\<close>

datatype PermissionPolicy = DefaultPolicy | MentionReply | ReviewPolicy

datatype PermissionReply = Once | Reject

record PermissionEventData =
  permission_id :: string
  permission_action :: string
  metadata :: json

text \<open>\<open>toolNames\<close> is a \<open>Set\<close>: \<open>add\<close> keeps the first insertion of a name.\<close>

definition setAdd :: "string \<Rightarrow> string list \<Rightarrow> string list" where
  "setAdd x xs = (if x \<in> set xs then xs else xs @ [x])"

definition addRuleToolName :: "json \<Rightarrow> string list \<Rightarrow> string list" where
  "addRuleToolName rule toolNames =
     (case optProp rule ''toolName'' of
        JStr toolName \<Rightarrow> if trim toolName \<noteq> [] then setAdd (trim toolName) toolNames
                          else toolNames
      | v \<Rightarrow> toolNames)"

definition addSuggestionToolNames :: "json \<Rightarrow> string list \<Rightarrow> string list" where
  "addSuggestionToolNames suggestion toolNames =
     (case optProp suggestion ''rules'' of
        JArr rules \<Rightarrow> fold addRuleToolName rules toolNames
      | v \<Rightarrow> toolNames)"

definition extractPermissionToolNames :: "json \<Rightarrow> js_error + string list" where
  "extractPermissionToolNames meta =
     (if falsy meta \<or> \<not> typeofObject meta then Inr []
      else (case getProp meta ''permissionSuggestions'' of
              Inl e \<Rightarrow> Inl e
            | Inr (JArr suggestions) \<Rightarrow> Inr (fold addSuggestionToolNames suggestions [])
            | Inr v \<Rightarrow> Inr []))"

definition extractPermissionCommand :: "json \<Rightarrow> string option" where
  "extractPermissionCommand meta =
     (if falsy meta \<or> \<not> typeofObject meta then None
      else (case optProp (optProp meta ''input'') ''command'' of
              JStr cmd \<Rightarrow> Some cmd
            | v \<Rightarrow> None))"

text \<open>\<open>/^mcp__.*linear/i\<close>, \<open>/\bmcp-cli\b/i\<close> and \<open>/\blinear\b/i\<close>\<close>

definition linearMcpToolRx :: rx where
  "linearMcpToolRx = Seq [Bol, Lit ''mcp__'', AnyStar, Lit ''linear'']"

definition mcpCliRx :: rx where
  "mcpCliRx = Seq [WordBoundary, Lit ''mcp-cli'', WordBoundary]"

definition linearWordRx :: rx where
  "linearWordRx = Seq [WordBoundary, Lit ''linear'', WordBoundary]"

definition deniedCommands :: "rx list" where
  "deniedCommands =
     [Seq [WordBoundary, Lit ''git'', Space1,
           Alt [Lit ''commit'', Lit ''push'', Lit ''merge'', Lit ''rebase'', Lit ''reset'',
                Lit ''checkout'', Lit ''cherry-pick'', Lit ''apply'', Lit ''am''],
           WordBoundary],
      Seq [WordBoundary,
           Alt [Lit ''rm'', Lit ''mv'', Lit ''cp'', Lit ''chmod'', Lit ''chown'', Lit ''ln''],
           WordBoundary],
      Seq [WordBoundary, Lit ''tee'', WordBoundary],
      Lit ''>'',
      Seq [WordBoundary, Lit ''brew'', Space1, Lit ''install'', WordBoundary],
      Seq [WordBoundary, Lit ''bun'', Space1, Lit ''install'', WordBoundary],
      Seq [WordBoundary, Lit ''npm'', Space1, Lit ''install'', WordBoundary],
      Seq [WordBoundary, Lit ''pnpm'', Space1, Lit ''install'', WordBoundary],
      Seq [WordBoundary, Lit ''yarn'', Space1, Lit ''install'', WordBoundary]]"

definition isReviewWriteCommand :: "string \<Rightarrow> bool" where
  "isReviewWriteCommand command =
     (let cmd = trim command
      in if cmd = [] then False else list_ex (\<lambda>re. rx_test re cmd) deniedCommands)"

definition truthyCommand :: "string option \<Rightarrow> bool" where
  "truthyCommand cmd = (case cmd of None \<Rightarrow> False | Some c \<Rightarrow> c \<noteq> [])"

definition decidePermissionReply ::
  "PermissionEventData \<Rightarrow> PermissionPolicy \<Rightarrow> js_error + PermissionReply" where
  "decidePermissionReply data policy =
     (if policy = DefaultPolicy then Inr Once
      else (case extractPermissionToolNames (metadata data) of
              Inl e \<Rightarrow> Inl e
            | Inr toolNames \<Rightarrow>
                if list_ex (\<lambda>t. rx_test linearMcpToolRx t) toolNames then Inr Reject
                else let cmd = extractPermissionCommand (metadata data) in
                  if truthyCommand cmd \<and> rx_test mcpCliRx (the cmd)
                     \<and> rx_test linearWordRx (the cmd)
                  then Inr Reject
                  else if policy = MentionReply then Inr Once
                  else if truthyCommand cmd \<and> isReviewWriteCommand (the cmd) then Inr Reject
                  else Inr Once))"

text \<open>
  A request names a tool \<open>t\<close> when its metadata is an object whose
  \<open>permissionSuggestions\<close> array has an entry whose \<open>rules\<close> array has an entry with
  the string \<open>t\<close> as \<open>toolName\<close>.
\<close>

definition ruleNames :: "string \<Rightarrow> json \<Rightarrow> bool" where
  "ruleNames t rule =
     (case rule of JObj kvs \<Rightarrow> map_of kvs ''toolName'' = Some (JStr t) | v \<Rightarrow> False)"

definition suggestionNames :: "string \<Rightarrow> json \<Rightarrow> bool" where
  "suggestionNames t suggestion =
     (case suggestion of
        JObj kvs \<Rightarrow> (case map_of kvs ''rules'' of
                       Some (JArr rules) \<Rightarrow> list_ex (ruleNames t) rules
                     | v \<Rightarrow> False)
      | v \<Rightarrow> False)"

definition namesTool :: "json \<Rightarrow> string \<Rightarrow> bool" where
  "namesTool meta t =
     (case meta of
        JObj kvs \<Rightarrow> (case map_of kvs ''permissionSuggestions'' of
                       Some (JArr suggestions) \<Rightarrow> list_ex (suggestionNames t) suggestions
                     | v \<Rightarrow> False)
      | v \<Rightarrow> False)"

section \<open>Result finalization (src/sandbox.ts)\<close>

datatype Reason = Completed | ErrorReason | Terminated | Timeout

record SandboxResult =
  success :: bool
  sessionId :: string
  reason :: Reason
  filesModified :: "string list"
  summary :: string
  answer :: "string option"
  error :: "string option"

subsection \<open>Text helpers\<close>

fun showNat :: "nat \<Rightarrow> string" where
  "showNat n =
     (if n < 10 then [char_of (48 + n)] else showNat (n div 10) @ [char_of (48 + n mod 10)])"

fun join :: "string \<Rightarrow> string list \<Rightarrow> string" where
  "join sep [] = []"
| "join sep [x] = x"
| "join sep (x # y # ys) = x @ sep @ join sep (y # ys)"

text \<open>\<open>s.split('\n')\<close>\<close>

fun splitLines :: "string \<Rightarrow> string list" where
  "splitLines [] = [[]]"
| "splitLines (c # cs) =
     (if c = CHR 0x0A then [] # splitLines cs
      else (case splitLines cs of
              [] \<Rightarrow> [[c]]
            | l # ls \<Rightarrow> (c # l) # ls))"

text \<open>
  \<open>afterLast pat s\<close> is \<open>s.slice(s.lastIndexOf(pat) + pat.length)\<close> when \<open>pat\<close> occurs
  in \<open>s\<close>; \<open>removeFirst pat s\<close> is \<open>s.replace(pat, '')\<close> for a string pattern.
\<close>

fun afterLast :: "string \<Rightarrow> string \<Rightarrow> string option" where
  "afterLast pat [] = None"
| "afterLast pat (c # cs) =
     (case afterLast pat cs of
        Some r \<Rightarrow> Some r
      | None \<Rightarrow> if startsWith (c # cs) pat then Some (drop (length pat) (c # cs)) else None)"

fun removeFirst :: "string \<Rightarrow> string \<Rightarrow> string" where
  "removeFirst pat [] = []"
| "removeFirst pat (c # cs) =
     (if startsWith (c # cs) pat then drop (length pat) (c # cs) else c # removeFirst pat cs)"

definition buildSummary :: "string list \<Rightarrow> string" where
  "buildSummary files =
     (if length files = 0 then ''No files were modified.''
      else ''Modified '' @ showNat (length files) @ '' file(s): '' @ join '', '' files)"

subsection \<open>The workspace\<close>

text \<open>
  The git commands run in the worktree are the workspace inspector: each gives its
  standard output or throws.
\<close>

record Workspace =
  gitStatusPorcelain :: "js_error + string"
  gitSymbolicRefOriginHead :: "js_error + string"
  gitDiffNameOnly :: "string \<Rightarrow> js_error + string"

datatype GitCommand = GitStatus | GitSymbolicRef | GitDiff string

definition parseStatusLine :: "string \<Rightarrow> string list \<Rightarrow> string list" where
  "parseStatusLine line files =
     (if trim line = [] then files
      else let pathPart = trim (drop 3 line) in
        if pathPart = [] then files
        else let path = (case afterLast '' -> '' pathPart of Some p \<Rightarrow> p | None \<Rightarrow> pathPart) in
          if path \<noteq> [] \<and> path \<notin> set files then files @ [path] else files)"

definition parseGitStatusFiles :: "string \<Rightarrow> string list" where
  "parseGitStatusFiles output = fold parseStatusLine (splitLines output) []"

text \<open>\<open>getMainBranch\<close> catches the failure of the command and returns \<open>null\<close>.\<close>

definition getMainBranch :: "Workspace \<Rightarrow> string option" where
  "getMainBranch ws =
     (case gitSymbolicRefOriginHead ws of
        Inl e \<Rightarrow> None
      | Inr result \<Rightarrow>
          let branch = removeFirst ''refs/remotes/origin/'' (trim result)
          in if branch = [] then None else Some (''origin/'' @ branch))"

definition getCommittedFiles :: "Workspace \<Rightarrow> (js_error + string list) \<times> GitCommand list" where
  "getCommittedFiles ws =
     (case getMainBranch ws of
        None \<Rightarrow> (Inr [], [GitSymbolicRef])
      | Some baseBranch \<Rightarrow>
          (case gitDiffNameOnly ws baseBranch of
             Inl e \<Rightarrow> (Inl e, [GitSymbolicRef, GitDiff baseBranch])
           | Inr output \<Rightarrow>
               (Inr (filter (\<lambda>l. l \<noteq> []) (map trim (splitLines output))),
                [GitSymbolicRef, GitDiff baseBranch])))"

text \<open>The result and the git commands that were run, in order.\<close>

definition finalizeResult ::
  "Workspace \<Rightarrow> SandboxResult \<Rightarrow> bool \<Rightarrow> SandboxResult \<times> GitCommand list" where
  "finalizeResult ws result detectFileChanges =
     (if \<not> detectFileChanges then (result, [])
      else if length (filesModified result) > 0 then (result, [])
      else (case gitStatusPorcelain ws of
              Inl e \<Rightarrow> (result, [GitStatus])
            | Inr output \<Rightarrow>
                let files = parseGitStatusFiles output in
                if length files > 0
                then (result\<lparr>filesModified := files, summary := buildSummary files\<rparr>,
                      [GitStatus])
                else (case getCommittedFiles ws of
                        (Inl e, cmds) \<Rightarrow> (result, GitStatus # cmds)
                      | (Inr committedFiles, cmds) \<Rightarrow>
                          if length committedFiles > 0
                          then (result\<lparr>filesModified := committedFiles,
                                       summary := buildSummary committedFiles\<rparr>,
                                GitStatus # cmds)
                          else (result, GitStatus # cmds))))"

section \<open>The agent session runner (src/sandbox.ts)\<close>

subsection \<open>Events of the agent runtime\<close>

datatype ContentPart = FileRef string string | ToolCall string | Text string | OtherPart

text \<open>An item: \<open>status\<close>, \<open>kind\<close>, \<open>role\<close> and \<open>content\<close>.\<close>

record Item =
  item_status :: string
  item_kind :: string
  item_role :: string
  item_content :: "ContentPart list"

datatype UniversalEvent =
    SessionStarted
  | ItemCompleted "Item option"
  | PermissionRequested PermissionEventData
  | QuestionRequested string
  | SessionEnded Reason "string option"
  | OtherEvent string

subsection \<open>The run: configuration, state, observable effects\<close>

text \<open>
  \<open>timeoutSeconds\<close> is the text of \<open>runConfig.timeoutMs / 1000\<close> in the timeout
  message; \<open>detectFileChanges\<close> and \<open>permissionPolicy\<close> are the options with their
  defaults applied.
\<close>

record SandboxRunConfig =
  run_sessionId :: string
  timeoutSeconds :: string
  progressIntervalMs :: int
  includeToolCalls :: bool
  detectFileChanges :: bool
  permissionPolicy :: PermissionPolicy

datatype Source = Streamed | Polled

text \<open>
  The calls the runner makes to its collaborators. \<open>Handled\<close> marks a call of
  \<open>handleEvent\<close> and says where the event came from.
\<close>

datatype Effect =
    StreamTurn
  | GetEvents nat nat
  | Delay nat
  | TerminateSession
  | Handled Source UniversalEvent
  | Progress string string
  | ReplyPermission string PermissionReply
  | RejectQuestion string
  | Log string
  | Git GitCommand

text \<open>
  The local variables of \<open>runSandboxAgent\<close>, together with a clock that counts the
  awaits completed so far and the trace of effects, each stamped with the clock.
\<close>

record run_state =
  st_filesModified :: "string list"
  st_lastAssistantMessage :: string
  st_lastProgressTime :: int
  st_offset :: nat
  st_sawCompleted :: bool
  st_sawFailed :: bool
  st_sentTurn :: bool
  st_clock :: nat
  st_trace :: "(nat \<times> Effect) list"

text \<open>
  The agent runtime and the rest of the environment of one run. The session has a log of
  events; the live stream of the turn delivers the first \<open>streamCount\<close> of them and then
  closes or raises \<open>streamEnd\<close>; \<open>available t\<close> events of the log exist at clock \<open>t\<close>.
  The timer fires during the await that brings the clock to \<open>deadline\<close>, which sets
  \<open>timedOut\<close> and aborts the signal.
\<close>

record Runtime =
  sessionLog :: "UniversalEvent list"
  available :: "nat \<Rightarrow> nat"
  streamCount :: nat
  streamEnd :: "js_error option"
  getEventsError :: "nat \<Rightarrow> js_error option"
  replyPermissionError :: "string \<Rightarrow> js_error option"
  rejectQuestionError :: "string \<Rightarrow> js_error option"
  deadline :: nat
  dateNow :: "nat \<Rightarrow> int"
  workspace :: Workspace

datatype step =
    Next run_state
  | Result SandboxResult run_state
  | Raise js_error run_state
  | Break run_state

fun stateOf :: "step \<Rightarrow> run_state" where
  "stateOf (Next s) = s"
| "stateOf (Result r s) = s"
| "stateOf (Raise e s) = s"
| "stateOf (Break s) = s"

definition emit :: "Effect \<Rightarrow> run_state \<Rightarrow> run_state" where
  "emit x s = s\<lparr>st_trace := st_trace s @ [(st_clock s, x)]\<rparr>"

definition tick :: "run_state \<Rightarrow> run_state" where
  "tick s = s\<lparr>st_clock := Suc (st_clock s)\<rparr>"

text \<open>\<open>abortController.signal.aborted\<close>, and \<open>timedOut\<close>\<close>

definition aborted :: "Runtime \<Rightarrow> run_state \<Rightarrow> bool" where
  "aborted rt s = (deadline rt \<le> st_clock s)"

definition initialState :: run_state where
  "initialState =
     \<lparr>st_filesModified = [], st_lastAssistantMessage = [], st_lastProgressTime = 0,
      st_offset = 0, st_sawCompleted = False, st_sawFailed = False, st_sentTurn = False,
      st_clock = 0, st_trace = []\<rparr>"

subsection \<open>Results\<close>

definition resultOf ::
  "SandboxRunConfig \<Rightarrow> run_state \<Rightarrow> bool \<Rightarrow> Reason \<Rightarrow> string \<Rightarrow> string option \<Rightarrow> SandboxResult" where
  "resultOf cfg s ok r summ err =
     \<lparr>success = ok, sessionId = run_sessionId cfg, reason = r,
      filesModified = st_filesModified s, summary = summ,
      answer = (if st_lastAssistantMessage s = [] then None
                else Some (st_lastAssistantMessage s)),
      error = err\<rparr>"

definition finish :: "SandboxRunConfig \<Rightarrow> Runtime \<Rightarrow> SandboxResult \<Rightarrow> run_state \<Rightarrow> step" where
  "finish cfg rt result s =
     (case finalizeResult (workspace rt) result (detectFileChanges cfg) of
        (r, cmds) \<Rightarrow> Result r (fold (\<lambda>c. emit (Git c)) cmds s))"

subsection \<open>handleItemCompleted and handleEvent\<close>

definition handlePart :: "SandboxRunConfig \<Rightarrow> int \<Rightarrow> ContentPart \<Rightarrow> run_state \<Rightarrow> run_state" where
  "handlePart cfg now part s =
     (case part of
        FileRef path action \<Rightarrow>
          if (action = ''write'' \<or> action = ''patch'') \<and> path \<notin> set (st_filesModified s)
          then s\<lparr>st_filesModified := st_filesModified s @ [path]\<rparr>
          else s
      | ToolCall name \<Rightarrow>
          if includeToolCalls cfg \<and> now - st_lastProgressTime s > progressIntervalMs cfg
          then emit (Progress ''tool'' (''Running: '' @ name)) s
          else s
      | p \<Rightarrow> s)"

definition handleItemCompleted ::
  "SandboxRunConfig \<Rightarrow> Runtime \<Rightarrow> Item option \<Rightarrow> run_state \<Rightarrow> run_state" where
  "handleItemCompleted cfg rt item s =
     (case item of
        None \<Rightarrow> s
      | Some it \<Rightarrow> fold (handlePart cfg (dateNow rt (st_clock s))) (item_content it) s)"

definition assistantText :: "Item \<Rightarrow> string" where
  "assistantText it = concat (map (\<lambda>p. case p of Text t \<Rightarrow> t | q \<Rightarrow> []) (item_content it))"

definition noteItem :: "Item option \<Rightarrow> run_state \<Rightarrow> run_state" where
  "noteItem item s =
     (case item of
        None \<Rightarrow> s
      | Some it \<Rightarrow>
          (if item_kind it = ''message'' \<and> item_role it = ''assistant''
              \<and> trim (assistantText it) \<noteq> []
           then (\<lambda>s'. s'\<lparr>st_lastAssistantMessage := trim (assistantText it)\<rparr>)
           else (\<lambda>s'. s'))
            (s\<lparr>st_sawFailed := (item_status it = ''failed'' \<or> st_sawFailed s),
               st_sawCompleted := (item_status it = ''completed'' \<or> st_sawCompleted s)\<rparr>))"

definition handleEvent ::
  "SandboxRunConfig \<Rightarrow> Runtime \<Rightarrow> UniversalEvent \<Rightarrow> run_state \<Rightarrow> step" where
  "handleEvent cfg rt event s =
     (case event of
        SessionStarted \<Rightarrow> Next (emit (Progress ''status'' ''Agent session started'') s)
      | ItemCompleted item \<Rightarrow>
          Next (noteItem item
                  ((handleItemCompleted cfg rt item s)
                     \<lparr>st_lastProgressTime := dateNow rt (st_clock s)\<rparr>))
      | PermissionRequested permData \<Rightarrow>
          (case decidePermissionReply permData (permissionPolicy cfg) of
             Inl e \<Rightarrow> Raise e s
           | Inr reply \<Rightarrow>
               (case replyPermissionError rt (permission_id permData) of
                  Some e \<Rightarrow>
                    Raise e (emit (ReplyPermission (permission_id permData) reply)
                              (if reply = Reject
                               then emit (Log ''Permission rejected by policy'') s else s))
                | None \<Rightarrow>
                    Next (emit (ReplyPermission (permission_id permData) reply)
                            (if reply = Reject
                             then emit (Log ''Permission rejected by policy'') s else s))))
      | QuestionRequested question_id \<Rightarrow>
          (case rejectQuestionError rt question_id of
             Some e \<Rightarrow> Raise e (emit (RejectQuestion question_id) s)
           | None \<Rightarrow> Next (emit (RejectQuestion question_id) s))
      | SessionEnded r message \<Rightarrow>
          finish cfg rt
            (resultOf cfg s (r = Completed) r (buildSummary (st_filesModified s)) message) s
      | OtherEvent ty \<Rightarrow> Next s)"

subsection \<open>Polling\<close>

text \<open>
  Modelled from the spec: the runtime's \<open>getEvents(id, {offset, limit}) -> {events,
  hasMore}\<close> serves the events of the session log that exist at the time of the call,
  from \<open>offset\<close>, at most \<open>limit\<close> of them, or fails.
\<close>

definition getEvents ::
  "Runtime \<Rightarrow> nat \<Rightarrow> nat \<Rightarrow> nat \<Rightarrow> js_error + (UniversalEvent list \<times> bool)" where
  "getEvents rt now offset limit =
     (case getEventsError rt now of
        Some e \<Rightarrow> Inl e
      | None \<Rightarrow>
          Inr (take limit (drop offset (take (available rt now) (sessionLog rt))),
               offset + limit < min (available rt now) (length (sessionLog rt))))"

text \<open>The loop over one page: \<open>offset += 1\<close>, then \<open>handleEvent\<close>.\<close>

fun handlePage ::
  "SandboxRunConfig \<Rightarrow> Runtime \<Rightarrow> UniversalEvent list \<Rightarrow> run_state \<Rightarrow> step" where
  "handlePage cfg rt [] s = Next s"
| "handlePage cfg rt (event # events) s =
     (case handleEvent cfg rt event
             (emit (Handled Polled event) (s\<lparr>st_offset := Suc (st_offset s)\<rparr>)) of
        Next s' \<Rightarrow> handlePage cfg rt events s'
      | r \<Rightarrow> r)"

lemma fold_emit_clock: "st_clock (fold (\<lambda>c. emit (Git c)) cmds s) = st_clock s"
  by (induction cmds arbitrary: s) (simp_all add: emit_def)

lemma finish_clock: "st_clock (stateOf (finish cfg rt r s)) = st_clock s"
  by (simp add: finish_def fold_emit_clock split: prod.split)

lemma handlePart_clock: "st_clock (handlePart cfg now part s) = st_clock s"
  by (simp add: handlePart_def emit_def split: ContentPart.split)

lemma fold_handlePart_clock: "st_clock (fold (handlePart cfg now) parts s) = st_clock s"
  by (induction parts arbitrary: s) (simp_all add: handlePart_clock)

lemma handleItemCompleted_clock: "st_clock (handleItemCompleted cfg rt item s) = st_clock s"
  by (simp add: handleItemCompleted_def fold_handlePart_clock split: option.split)

lemma noteItem_clock: "st_clock (noteItem item s) = st_clock s"
  by (simp add: noteItem_def split: option.split)

lemma handleEvent_clock: "st_clock (stateOf (handleEvent cfg rt event s)) = st_clock s"
  by (simp add: handleEvent_def emit_def finish_clock noteItem_clock handleItemCompleted_clock
      split: UniversalEvent.split sum.split option.split)

lemma handlePage_clock: "st_clock (stateOf (handlePage cfg rt events s)) = st_clock s"
proof (induction events arbitrary: s)
  case Nil
  then show ?case by simp
next
  case (Cons event events)
  let ?s = "emit (Handled Polled event) (s\<lparr>st_offset := Suc (st_offset s)\<rparr>)"
  have c: "st_clock (stateOf (handleEvent cfg rt event ?s)) = st_clock s"
    by (simp add: handleEvent_clock) (simp add: emit_def)
  show ?case
  proof (cases "handleEvent cfg rt event ?s")
    case (Next s')
    with c Cons.IH [of s'] show ?thesis by simp
  qed (use c in simp_all)
qed

function pollEvents :: "SandboxRunConfig \<Rightarrow> Runtime \<Rightarrow> run_state \<Rightarrow> step" where
  "pollEvents cfg rt s =
     (if aborted rt s then Next s
      else (case getEvents rt (st_clock s) (st_offset s) 100 of
              Inl e \<Rightarrow> Raise e (tick (emit (GetEvents (st_offset s) 100) s))
            | Inr response \<Rightarrow>
                (case handlePage cfg rt (fst response)
                        (tick (emit (GetEvents (st_offset s) 100) s)) of
                   Next s' \<Rightarrow>
                     if snd response \<and> fst response \<noteq> [] then pollEvents cfg rt s'
                     else Next s'
                 | r \<Rightarrow> r)))"
  by pat_completeness auto
termination
proof (relation "measure (\<lambda>(cfg, rt, s). deadline rt - st_clock s)", goal_cases)
  case 1
  then show ?case by simp
next
  case (2 cfg rt s response s')
  from 2(3) handlePage_clock [of cfg rt "fst response" "tick (emit (GetEvents (st_offset s) 100) s)"]
  have "st_clock s' = Suc (st_clock s)" by (simp add: tick_def emit_def)
  with 2(1) show ?case by (simp add: aborted_def)
qed


subsection \<open>Streaming\<close>

datatype stream_item = SEvent UniversalEvent | SError js_error

definition streamItems :: "Runtime \<Rightarrow> stream_item list" where
  "streamItems rt =
     map SEvent (take (streamCount rt) (sessionLog rt))
     @ (case streamEnd rt of None \<Rightarrow> [] | Some e \<Rightarrow> [SError e])"

definition isRetryableStreamError :: "js_error \<Rightarrow> bool" where
  "isRetryableStreamError err =
     (case err of
        DOMException name message \<Rightarrow> name = ''TimeoutError'' \<or> name = ''AbortError''
      | Error message code \<Rightarrow>
          str_includes (toLowerCase message) ''timed out''
          \<or> str_includes (toLowerCase message) ''unable to connect''
          \<or> str_includes (toLowerCase message) ''connection refused''
          \<or> code = Some ''ECONNREFUSED'' \<or> code = Some ''ConnectionRefused''
      | Thrown code text \<Rightarrow> code = Some ''ECONNREFUSED'' \<or> code = Some ''ConnectionRefused'')"

text \<open>
  The \<open>catch\<close> around the \<open>for await\<close> loop: \<open>break\<close> out of the outer loop when the
  signal is aborted, go on (to polling) after a retryable error, rethrow any other.
\<close>

definition streamCatch :: "Runtime \<Rightarrow> js_error \<Rightarrow> run_state \<Rightarrow> step" where
  "streamCatch rt err s =
     (if aborted rt s then Break s
      else if isRetryableStreamError err then Next s
      else Raise err s)"

text \<open>
  The \<open>for await\<close> loop inside its \<open>try\<close>. Each item of the stream is awaited; the end
  of the stream is \<open>Next\<close>, the \<open>break\<close> out of the outer loop is \<open>Break\<close>. What the
  stream throws and what \<open>handleEvent\<close> throws both go to the \<open>catch\<close>.
\<close>

fun streamLoop ::
  "SandboxRunConfig \<Rightarrow> Runtime \<Rightarrow> stream_item list \<Rightarrow> run_state \<Rightarrow> step" where
  "streamLoop cfg rt [] s = Next (tick s)"
| "streamLoop cfg rt (SError err # items) s = streamCatch rt err (tick s)"
| "streamLoop cfg rt (SEvent event # items) s =
     (if aborted rt (tick s) then Next (tick s)
      else (case handleEvent cfg rt event
                   (emit (Handled Streamed event) ((tick s)\<lparr>st_offset := Suc (st_offset s)\<rparr>)) of
              Next s' \<Rightarrow> streamLoop cfg rt items s'
            | Raise err s' \<Rightarrow> streamCatch rt err s'
            | r \<Rightarrow> r))"

lemma streamCatch_state [simp]: "stateOf (streamCatch rt err s) = s"
  by (simp add: streamCatch_def)

lemma streamLoop_clock: "st_clock s \<le> st_clock (stateOf (streamLoop cfg rt items s))"
proof (induction items arbitrary: s)
  case Nil
  then show ?case by (simp add: tick_def)
next
  case (Cons item items)
  show ?case
  proof (cases item)
    case (SError err)
    then show ?thesis by (simp add: tick_def)
  next
    case (SEvent event)
    let ?s = "emit (Handled Streamed event) ((tick s)\<lparr>st_offset := Suc (st_offset s)\<rparr>)"
    have c: "st_clock (stateOf (handleEvent cfg rt event ?s)) = Suc (st_clock s)"
      by (simp add: handleEvent_clock) (simp add: emit_def tick_def)
    show ?thesis
    proof (cases "handleEvent cfg rt event ?s")
      case (Next s')
      with c Cons.IH [of s'] SEvent show ?thesis by (simp add: tick_def)
    qed (use c SEvent in \<open>simp_all add: tick_def\<close>)
  qed
qed

lemma pollEvents_clock: "st_clock s \<le> st_clock (stateOf (pollEvents cfg rt s))"
proof (induction cfg rt s rule: pollEvents.induct)
  case (1 cfg rt s)
  let ?s = "tick (emit (GetEvents (st_offset s) 100) s)"
  show ?case
  proof (cases "aborted rt s")
    case True
    then show ?thesis by simp
  next
    case False
    show ?thesis
    proof (cases "getEvents rt (st_clock s) (st_offset s) 100")
      case (Inl e)
      with False show ?thesis by (simp add: tick_def emit_def)
    next
      case (Inr response)
      have c: "st_clock (stateOf (handlePage cfg rt (fst response) ?s)) = Suc (st_clock s)"
        by (simp add: handlePage_clock) (simp add: tick_def emit_def)
      show ?thesis
      proof (cases "handlePage cfg rt (fst response) ?s")
        case (Next s')
        with c have s': "st_clock s' = Suc (st_clock s)" by simp
        show ?thesis
        proof (cases "snd response \<and> fst response \<noteq> []")
          case True
          with "1.IH" [OF False Inr Next] s' False Inr Next show ?thesis by simp
        next
          case no: False
          with s' False Inr Next show ?thesis by auto
        qed
      qed (use c False Inr in simp_all)
    qed
  qed
qed

subsection \<open>The run\<close>

definition failedItemResult :: "SandboxRunConfig \<Rightarrow> run_state \<Rightarrow> SandboxResult" where
  "failedItemResult cfg s =
     resultOf cfg s False ErrorReason (buildSummary (st_filesModified s))
       (Some ''Agent reported a failed item'')"

definition completedItemResult :: "SandboxRunConfig \<Rightarrow> run_state \<Rightarrow> SandboxResult" where
  "completedItemResult cfg s =
     resultOf cfg s True Completed (buildSummary (st_filesModified s)) None"

text \<open>
  The \<open>while (!abortController.signal.aborted)\<close> loop. \<open>Next\<close> is the exit of the loop,
  by its condition or by \<open>break\<close>.
\<close>

function mainLoop :: "SandboxRunConfig \<Rightarrow> Runtime \<Rightarrow> run_state \<Rightarrow> step" where
  "mainLoop cfg rt s =
     (if aborted rt s then Next s
      else (case (if \<not> st_sentTurn s
                  then streamLoop cfg rt (streamItems rt)
                         (emit StreamTurn (s\<lparr>st_sentTurn := True\<rparr>))
                  else Next s) of
              Next s1 \<Rightarrow>
                (case pollEvents cfg rt s1 of
                   Next s2 \<Rightarrow>
                     if st_sawFailed s2 then finish cfg rt (failedItemResult cfg s2) s2
                     else if st_sawCompleted s2
                          then finish cfg rt (completedItemResult cfg s2) s2
                          else mainLoop cfg rt (tick (emit (Delay 1000) s2))
                 | r \<Rightarrow> r)
            | Break s1 \<Rightarrow> Next s1
            | r \<Rightarrow> r))"
  by pat_completeness auto
termination
proof (relation "measure (\<lambda>(cfg, rt, s). deadline rt - st_clock s)", goal_cases)
  case 1
  then show ?case by simp
next
  case (2 cfg rt s s1 s2)
  have "st_clock s \<le> st_clock s1"
  proof (cases "st_sentTurn s")
    case True
    with 2(2) show ?thesis by simp
  next
    case False
    with 2(2) streamLoop_clock [of "emit StreamTurn (s\<lparr>st_sentTurn := True\<rparr>)" cfg rt
        "streamItems rt"]
    show ?thesis by (simp add: emit_def)
  qed
  moreover from 2(3) pollEvents_clock [of s1 cfg rt] have "st_clock s1 \<le> st_clock s2" by simp
  ultimately show ?case using 2(1) by (simp add: aborted_def tick_def emit_def)
qed

definition errorText :: "js_error \<Rightarrow> string" where
  "errorText err =
     (case err of
        DOMException name message \<Rightarrow> message
      | Error message code \<Rightarrow> message
      | Thrown code text \<Rightarrow> text)"

text \<open>
  The termination request after the deadline; \<open>terminate\<close> is what
  \<open>terminateSession\<close> does: it returns (\<open>None\<close>) or throws.
\<close>

definition requestTermination :: "js_error option \<Rightarrow> run_state \<Rightarrow> run_state" where
  "requestTermination terminate s =
     (case terminate of
        None \<Rightarrow> emit TerminateSession s
      | Some e \<Rightarrow> emit (Log ''Failed to terminate session'') (emit TerminateSession s))"

definition timeoutResult :: "SandboxRunConfig \<Rightarrow> run_state \<Rightarrow> string \<Rightarrow> SandboxResult" where
  "timeoutResult cfg s detail =
     resultOf cfg s False Timeout (buildSummary (st_filesModified s))
       (Some (''Timeout after '' @ timeoutSeconds cfg @ ''s - '' @ detail))"

definition terminatedResult :: "SandboxRunConfig \<Rightarrow> run_state \<Rightarrow> SandboxResult" where
  "terminatedResult cfg s = resultOf cfg s False Terminated ''Session ended unexpectedly'' None"

text \<open>
  \<open>runSandboxAgent\<close> from the point where the session exists and the timer is armed:
  the loop, the \<open>if (timedOut)\<close> after it, the \<open>catch\<close> and the fallback.
\<close>

definition runSandboxAgent ::
  "SandboxRunConfig \<Rightarrow> Runtime \<Rightarrow> js_error option \<Rightarrow> step" where
  "runSandboxAgent cfg rt terminate =
     (case mainLoop cfg rt initialState of
        Next s \<Rightarrow>
          if aborted rt s
          then finish cfg rt
                 (timeoutResult cfg (requestTermination terminate s) ''session terminated'')
                 (requestTermination terminate s)
          else finish cfg rt (terminatedResult cfg s) s
      | Raise err s \<Rightarrow>
          if aborted rt s
          then finish cfg rt
                 (timeoutResult cfg (requestTermination terminate s) (errorText err))
                 (requestTermination terminate s)
          else Raise err s
      | r \<Rightarrow> r)"

subsection \<open>Reading a trace\<close>

text \<open>The events handled, in order; the effects other than those of the loops.\<close>

fun handledOf :: "nat \<times> Effect \<Rightarrow> UniversalEvent list" where
  "handledOf (t, Handled src event) = [event]"
| "handledOf (t, x) = []"

definition handledEvents :: "(nat \<times> Effect) list \<Rightarrow> UniversalEvent list" where
  "handledEvents tr = concat (map handledOf tr)"

fun minorEffect :: "Effect \<Rightarrow> bool" where
  "minorEffect (Progress ty message) = True"
| "minorEffect (ReplyPermission permission reply) = True"
| "minorEffect (RejectQuestion question) = True"
| "minorEffect (Log message) = True"
| "minorEffect (Git c) = True"
| "minorEffect x = False"

text \<open>
  \<open>pollOffsetsFrom n tr\<close>: walking the trace with \<open>n\<close> events handled so far, every
  \<open>getEvents\<close> call asks for the events from offset \<open>n\<close>, at most 100 of them.
\<close>

fun pollOffsetsFrom :: "nat \<Rightarrow> (nat \<times> Effect) list \<Rightarrow> bool" where
  "pollOffsetsFrom n [] = True"
| "pollOffsetsFrom n ((t, GetEvents offset limit) # tr) =
     (offset = n \<and> limit = 100 \<and> pollOffsetsFrom n tr)"
| "pollOffsetsFrom n ((t, Handled src event) # tr) = pollOffsetsFrom (Suc n) tr"
| "pollOffsetsFrom n ((t, x) # tr) = pollOffsetsFrom n tr"

text \<open>The file-modification records of an event, in the order of its content.\<close>

fun writtenPath :: "ContentPart \<Rightarrow> string list" where
  "writtenPath (FileRef path action) =
     (if action = ''write'' \<or> action = ''patch'' then [path] else [])"
| "writtenPath p = []"

fun writtenPaths :: "UniversalEvent \<Rightarrow> string list" where
  "writtenPaths (ItemCompleted (Some it)) = concat (map writtenPath (item_content it))"
| "writtenPaths event = []"

text \<open>A list without its repetitions, each element at its first occurrence.\<close>

definition firstOccurrences :: "string list \<Rightarrow> string list" where
  "firstOccurrences xs = rev (remdups (rev xs))"

text \<open>
  An event that neither ends the session nor completes or fails an item.
\<close>

fun quiet :: "UniversalEvent \<Rightarrow> bool" where
  "quiet (SessionEnded r message) = False"
| "quiet (ItemCompleted (Some it)) =
     (item_status it \<noteq> ''completed'' \<and> item_status it \<noteq> ''failed'')"
| "quiet event = True"

text \<open>
  The steps a run is made of: an await completes; the turn is streamed; a page is
  requested; the next event of the session log is counted and handled; the loop backs
  off.
\<close>

inductive run_step :: "SandboxRunConfig \<Rightarrow> Runtime \<Rightarrow> run_state \<Rightarrow> run_state \<Rightarrow> bool"
  for cfg :: SandboxRunConfig and rt :: Runtime where
  awaited: "run_step cfg rt s (tick s)"
| turn: "\<not> st_sentTurn s \<Longrightarrow> \<not> aborted rt s \<Longrightarrow>
         run_step cfg rt s (emit StreamTurn (s\<lparr>st_sentTurn := True\<rparr>))"
| page: "st_sentTurn s \<Longrightarrow> \<not> aborted rt s \<Longrightarrow>
         run_step cfg rt s (emit (GetEvents (st_offset s) 100) s)"
| handled: "st_sentTurn s \<Longrightarrow> st_offset s < length (sessionLog rt) \<Longrightarrow>
            src = Streamed \<longrightarrow> \<not> aborted rt s \<Longrightarrow>
            run_step cfg rt s
              (stateOf (handleEvent cfg rt (sessionLog rt ! st_offset s)
                 (emit (Handled src (sessionLog rt ! st_offset s))
                    (s\<lparr>st_offset := Suc (st_offset s)\<rparr>))))"
| backoff: "st_sentTurn s \<Longrightarrow> run_step cfg rt s (emit (Delay 1000) s)"
| inspected: "st_sentTurn s \<Longrightarrow> run_step cfg rt s (emit (Git c) s)"

subsection \<open>Invariants of a run\<close>

text \<open>What handleEvent leaves alone, and what it adds to the trace.\<close>

definition extends :: "run_state \<Rightarrow> run_state \<Rightarrow> bool" where
  "extends s s' =
     (st_offset s' = st_offset s \<and> st_sentTurn s' = st_sentTurn s \<and> st_clock s' = st_clock s
      \<and> (\<exists>ext. st_trace s' = st_trace s @ ext
                \<and> (\<forall>x\<in>set ext. minorEffect (snd x) \<and> fst x = st_clock s)))"

definition logPrefix :: "Runtime \<Rightarrow> run_state \<Rightarrow> bool" where
  "logPrefix rt s =
     (handledEvents (st_trace s) = take (st_offset s) (sessionLog rt)
      \<and> st_offset s \<le> length (sessionLog rt))"

text \<open>The turn is streamed once, before anything else.\<close>

definition turnFirst :: "run_state \<Rightarrow> bool" where
  "turnFirst s =
     (if st_sentTurn s
      then \<exists>t tr. st_trace s = (t, StreamTurn) # tr \<and> (\<forall>x\<in>set tr. snd x \<noteq> StreamTurn)
      else st_trace s = [])"

text \<open>Nothing is fetched once the deadline has passed, and the loop never terminates the session.\<close>

fun fetches :: "Effect \<Rightarrow> bool" where
  "fetches StreamTurn = True"
| "fetches (GetEvents offset limit) = True"
| "fetches (Handled Streamed event) = True"
| "fetches x = False"

definition beforeDeadline :: "Runtime \<Rightarrow> (nat \<times> Effect) list \<Rightarrow> bool" where
  "beforeDeadline rt tr =
     (\<forall>x\<in>set tr. snd x \<noteq> TerminateSession \<and> (fetches (snd x) \<longrightarrow> fst x < deadline rt))"

text \<open>The files accumulated are the first occurrences of the written paths handled.\<close>

definition filesTracked :: "run_state \<Rightarrow> bool" where
  "filesTracked s =
     (st_filesModified s
        = firstOccurrences (concat (map writtenPaths (handledEvents (st_trace s)))))"

text \<open>What a returned result says about the state it was returned in.\<close>

definition resultSound :: "SandboxRunConfig \<Rightarrow> step \<Rightarrow> bool" where
  "resultSound cfg st =
     (case st of
        Result r s \<Rightarrow>
          (filesModified r = st_filesModified s
           \<or> (st_filesModified s = [] \<and> detectFileChanges cfg))
          \<and> (st_sawFailed s \<or> st_sawCompleted s
              \<or> (\<exists>e\<in>set (handledEvents (st_trace s)). \<not> quiet e))
      | other \<Rightarrow> True)"

definition noBreak :: "step \<Rightarrow> bool" where
  "noBreak st = (case st of Break s \<Rightarrow> False | other \<Rightarrow> True)"

text \<open>Every backoff is one second.\<close>

definition delaysFixed :: "(nat \<times> Effect) list \<Rightarrow> bool" where
  "delaysFixed tr = (\<forall>x\<in>set tr. \<forall>d. snd x = Delay d \<longrightarrow> d = 1000)"

definition resultIn :: "step \<Rightarrow> SandboxResult option" where
  "resultIn st = (case st of Result r s \<Rightarrow> Some r | other \<Rightarrow> None)"

definition raisedIn :: "step \<Rightarrow> js_error option" where
  "raisedIn st = (case st of Raise e s \<Rightarrow> Some e | other \<Rightarrow> None)"

definition terminations :: "(nat \<times> Effect) list \<Rightarrow> nat" where
  "terminations tr = length (filter (\<lambda>x. snd x = TerminateSession) tr)"

definition exampleRunConfig :: SandboxRunConfig where
  "exampleRunConfig = \<lparr>run_sessionId = ''session-1'', timeoutSeconds = ''1800'', progressIntervalMs = 60000,
     includeToolCalls = True, detectFileChanges = True, permissionPolicy = DefaultPolicy\<rparr>"

definition cleanWorkspace :: Workspace where
  "cleanWorkspace = \<lparr>gitStatusPorcelain = Inr [], gitSymbolicRefOriginHead = Inl (Error ''no ref'' None),
      gitDiffNameOnly = (\<lambda>base. Inr [])\<rparr>"

definition exampleRuntime :: "UniversalEvent list \<Rightarrow> nat \<Rightarrow> js_error option \<Rightarrow> nat \<Rightarrow> Runtime" where
  "exampleRuntime log n e d = \<lparr>sessionLog = log, available = (\<lambda>t. length log), streamCount = n, streamEnd = e,
     getEventsError = (\<lambda>t. None), replyPermissionError = (\<lambda>i. None), rejectQuestionError = (\<lambda>i. None),
     deadline = d, dateNow = (\<lambda>t. 1000 * int t), workspace = cleanWorkspace\<rparr>"

text \<open>What the code after the loop adds.\<close>

definition afterLoop :: "run_state \<Rightarrow> run_state \<Rightarrow> bool" where
  "afterLoop s s' =
     (st_filesModified s' = st_filesModified s \<and> st_offset s' = st_offset s
      \<and> st_clock s' = st_clock s
      \<and> (\<exists>ext. st_trace s' = st_trace s @ ext
            \<and> (\<forall>x\<in>set ext. (snd x = TerminateSession \<or> minorEffect (snd x))
                             \<and> fst x = st_clock s)))"

definition turnSent :: run_state where
  "turnSent = emit StreamTurn (initialState\<lparr>st_sentTurn := True\<rparr>)"


definition finalState :: "SandboxRunConfig \<Rightarrow> Runtime \<Rightarrow> js_error option \<Rightarrow> run_state" where
  "finalState cfg rt terminate = stateOf (runSandboxAgent cfg rt terminate)"

subsection \<open>The order of the effects of a run\<close>


fun ended :: "UniversalEvent \<Rightarrow> bool" where
  "ended (SessionEnded r message) = True"
| "ended event = False"




text \<open>The state a loop leaves behind follows the protocol and is in phase \<open>p\<close>.\<close>

definition latched :: "run_state \<Rightarrow> bool" where
  "latched s = (st_sawFailed s \<or> st_sawCompleted s)"






subsection \<open>First match wins, as the specification words it\<close>





subsection \<open>Example events\<close>

definition labelRule :: "string \<Rightarrow> TriggerAction \<Rightarrow> Operation list option \<Rightarrow> TriggerConfig" where
  "labelRule v a ops =
     \<lparr>trigger_type = Label, trigger_value = v, trigger_action = a, trigger_agent = None,
      trigger_on = ops\<rparr>"

definition issueEvent ::
  "Operation \<Rightarrow> TriggerLabel list \<Rightarrow> string list option \<Rightarrow> TriggerContext" where
  "issueEvent op ls previous =
     \<lparr>eventType = Issue, ctx_action = op,
      issue = \<lparr>issue_id = ''issue-1'', labels = Some (map label_name ls),
               labelsDetailed = Some ls, labelIds = Some (map label_id ls),
               updatedFromLabelIds = previous\<rparr>,
      comment = None\<rparr>"

definition labelsABC :: "TriggerLabel list" where
  "labelsABC = [\<lparr>label_id = ''A'', label_name = ''alpha''\<rparr>,
                \<lparr>label_id = ''B'', label_name = ''beta''\<rparr>,
                \<lparr>label_id = ''C'', label_name = ''Code''\<rparr>]"




section \<open>Properties of the trigger matchers\<close>









text \<open>
  C3, as stated: the label matcher returns true only on \<open>create\<close>, or on \<open>update\<close>
  when the wanted label was added. It fails on a \<open>remove\<close> event of an issue that
  carries the label: the matcher answers true for every operation other than \<open>update\<close>.
\<close>

theorem label_matches_remove_counterexample:
  "label_matches (labelRule ''code'' Quick None) (issueEvent Remove labelsABC None)
   \<and> ctx_action (issueEvent Remove labelsABC None) \<noteq> Create
   \<and> ctx_action (issueEvent Remove labelsABC None) \<noteq> Update"
proof -
  have "label_matches (labelRule ''code'' Quick None) (issueEvent Remove labelsABC None)"
    by code_simp
  then show ?thesis by (simp add: issueEvent_def)
qed

text \<open>
  C3, amended: the label matcher returns true only if the operation is not \<open>update\<close>
  (create or remove), or the operation is \<open>update\<close>, the previous label ids are known,
  and the wanted label's id is among the current label ids and not among the previous
  ones. On an \<open>update\<close> without previous label ids it returns false.
\<close>

theorem label_matches_only_if:
  "(label_matches trigger context \<longrightarrow>
      ctx_action context \<noteq> Update \<or>
      (\<exists>previous labelId.
          updatedFromLabelIds (issue context) = Some previous
        \<and> wantedLabelId (wantedLabel trigger) context = Some labelId
        \<and> labelId \<in> set (currentLabelIds context)
        \<and> labelId \<notin> set previous))
   \<and> (ctx_action context = Update \<and> updatedFromLabelIds (issue context) = None
        \<longrightarrow> \<not> label_matches trigger context)"
  by (auto simp: label_matches_def Let_def split: option.splits if_splits)

theorem label_matches_only_if_witness:
  "label_matches (labelRule ''code'' Quick None)
     (issueEvent Update labelsABC (Some [''A'', ''B'']))
   \<and> (\<exists>previous labelId.
          updatedFromLabelIds (issue (issueEvent Update labelsABC (Some [''A'', ''B''])))
            = Some previous
        \<and> wantedLabelId (wantedLabel (labelRule ''code'' Quick None))
            (issueEvent Update labelsABC (Some [''A'', ''B''])) = Some labelId
        \<and> labelId \<in> set (currentLabelIds (issueEvent Update labelsABC (Some [''A'', ''B''])))
        \<and> labelId \<notin> set previous)
   \<and> \<not> label_matches (labelRule ''alpha'' Quick None)
         (issueEvent Update labelsABC (Some [''A'', ''B'']))
   \<and> \<not> label_matches (labelRule ''code'' Quick None) (issueEvent Update labelsABC None)"
proof -
  have fires: "label_matches (labelRule ''code'' Quick None)
                 (issueEvent Update labelsABC (Some [''A'', ''B'']))"
    by code_simp
  have upd: "ctx_action (issueEvent Update labelsABC (Some [''A'', ''B''])) = Update"
    by (simp add: issueEvent_def)
  have old: "\<not> label_matches (labelRule ''alpha'' Quick None)
                 (issueEvent Update labelsABC (Some [''A'', ''B'']))"
    by code_simp
  have noprev: "ctx_action (issueEvent Update labelsABC None) = Update
                \<and> updatedFromLabelIds (issue (issueEvent Update labelsABC None)) = None"
    by (simp add: issueEvent_def)
  from label_matches_only_if [of "labelRule ''code'' Quick None"
         "issueEvent Update labelsABC (Some [''A'', ''B''])"] fires upd
  have added: "\<exists>previous labelId.
          updatedFromLabelIds (issue (issueEvent Update labelsABC (Some [''A'', ''B''])))
            = Some previous
        \<and> wantedLabelId (wantedLabel (labelRule ''code'' Quick None))
            (issueEvent Update labelsABC (Some [''A'', ''B''])) = Some labelId
        \<and> labelId \<in> set (currentLabelIds (issueEvent Update labelsABC (Some [''A'', ''B''])))
        \<and> labelId \<notin> set previous"
    by blast
  from label_matches_only_if [of "labelRule ''code'' Quick None"
         "issueEvent Update labelsABC None"] noprev
  have "\<not> label_matches (labelRule ''code'' Quick None) (issueEvent Update labelsABC None)"
    by blast
  with fires added old show ?thesis by blast
qed




section \<open>Properties of the deduplication caches\<close>

lemma evictExpired_keeps:
  "map_of m j = Some ts \<Longrightarrow> \<not> (now - ts > w) \<Longrightarrow> map_of (evictExpired w now m) j = Some ts"
  unfolding evictExpired_def by (rule map_of_filter_in) auto

lemma evictExpired_distinct:
  "distinct (map fst m) \<Longrightarrow> distinct (map fst (evictExpired w now m))"
  by (simp add: evictExpired_def distinct_map_filter)

lemma linearSeen_first:
  "map_of m key = None \<Longrightarrow>
   fst (linearSeen (t, t') key m) = False \<and> map_of (snd (linearSeen (t, t') key m)) key = Some t'"
  by (simp add: linearSeen_def isDuplicateEvent_def markEventProcessed_def update_conv')

lemma linearSeen_second:
  "map_of m key = Some ts \<Longrightarrow> ts \<noteq> 0 \<Longrightarrow> t - ts < 30000 \<Longrightarrow>
   linearSeen (t, t') key m = (True, m)"
  by (simp add: linearSeen_def isDuplicateEvent_def DEDUP_WINDOW_MS_def)

lemma linearSeen_third:
  "map_of m key = Some ts \<Longrightarrow> 30000 \<le> t - ts \<Longrightarrow>
   fst (linearSeen (t, t') key m) = False \<and> map_of (snd (linearSeen (t, t') key m)) key = Some t'"
  by (simp add: linearSeen_def isDuplicateEvent_def markEventProcessed_def update_conv'
      DEDUP_WINDOW_MS_def)

lemma linearSeen_unexpired_kept:
  "map_of m j = Some ts \<Longrightarrow> \<not> (fst c - ts > 30000) \<Longrightarrow> j \<noteq> key \<Longrightarrow>
   map_of (snd (linearSeen c key m)) j = Some ts"
  by (auto simp: linearSeen_def isDuplicateEvent_def markEventProcessed_def update_conv'
      DEDUP_WINDOW_MS_def evictExpired_keeps)

lemma linearSeen_keeps:
  "map_of m j = Some ts \<Longrightarrow> ts \<noteq> 0 \<Longrightarrow> fst c - ts < 30000 \<Longrightarrow>
   map_of (snd (linearSeen c key m)) j = Some ts"
  by (cases "j = key")
     (auto simp: linearSeen_def isDuplicateEvent_def markEventProcessed_def update_conv'
        DEDUP_WINDOW_MS_def evictExpired_keeps)

lemma linearSeenAll_keeps:
  "map_of m j = Some ts \<Longrightarrow> ts \<noteq> 0 \<Longrightarrow> \<forall>c\<in>set calls. fst (fst c) - ts < 30000 \<Longrightarrow>
   map_of (linearSeenAll calls m) j = Some ts"
proof (induction calls arbitrary: m)
  case Nil
  then show ?case by simp
next
  case (Cons c calls)
  obtain clock key where c: "c = (clock, key)" by (cases c)
  from Cons.prems have "map_of (snd (linearSeen clock key m)) j = Some ts"
    by (intro linearSeen_keeps) (auto simp: c)
  with Cons show ?case by (simp add: c)
qed

lemma linearSeen_distinct:
  "distinct (map fst m) \<Longrightarrow> distinct (map fst (snd (linearSeen c key m)))"
  by (auto simp: linearSeen_def isDuplicateEvent_def markEventProcessed_def
      evictExpired_distinct distinct_update)

lemma githubSeen_first:
  "map_of m key = None \<Longrightarrow>
   fst (isDuplicateGithubDelivery t key m) = False
   \<and> map_of (snd (isDuplicateGithubDelivery t key m)) key = Some t"
  by (simp add: isDuplicateGithubDelivery_def update_conv')

lemma githubSeen_second:
  "map_of m key = Some ts \<Longrightarrow> ts \<noteq> 0 \<Longrightarrow> t - ts < 300000 \<Longrightarrow>
   isDuplicateGithubDelivery t key m = (True, m)"
  by (simp add: isDuplicateGithubDelivery_def GITHUB_DEDUP_WINDOW_MS_def)

lemma githubSeen_third:
  "map_of m key = Some ts \<Longrightarrow> 300000 \<le> t - ts \<Longrightarrow>
   fst (isDuplicateGithubDelivery t key m) = False
   \<and> map_of (snd (isDuplicateGithubDelivery t key m)) key = Some t"
  by (simp add: isDuplicateGithubDelivery_def update_conv' GITHUB_DEDUP_WINDOW_MS_def)

lemma githubSeen_unexpired_kept:
  "map_of m j = Some ts \<Longrightarrow> \<not> (t - ts > 300000) \<Longrightarrow> j \<noteq> key \<Longrightarrow>
   map_of (snd (isDuplicateGithubDelivery t key m)) j = Some ts"
  by (auto simp: isDuplicateGithubDelivery_def update_conv'
      GITHUB_DEDUP_WINDOW_MS_def evictExpired_keeps)

lemma githubSeen_keeps:
  "map_of m j = Some ts \<Longrightarrow> ts \<noteq> 0 \<Longrightarrow> t - ts < 300000 \<Longrightarrow>
   map_of (snd (isDuplicateGithubDelivery t key m)) j = Some ts"
  by (cases "j = key")
     (auto simp: isDuplicateGithubDelivery_def update_conv'
        GITHUB_DEDUP_WINDOW_MS_def evictExpired_keeps)

lemma githubSeenAll_keeps:
  "map_of m j = Some ts \<Longrightarrow> ts \<noteq> 0 \<Longrightarrow> \<forall>c\<in>set calls. fst c - ts < 300000 \<Longrightarrow>
   map_of (githubSeenAll calls m) j = Some ts"
proof (induction calls arbitrary: m)
  case Nil
  then show ?case by simp
next
  case (Cons c calls)
  obtain now key where c: "c = (now, key)" by (cases c)
  from Cons.prems have "map_of (snd (isDuplicateGithubDelivery now key m)) j = Some ts"
    by (intro githubSeen_keeps) (auto simp: c)
  with Cons show ?case by (simp add: c)
qed

lemma githubSeen_distinct:
  "distinct (map fst m) \<Longrightarrow> distinct (map fst (snd (isDuplicateGithubDelivery t key m)))"
  by (auto simp: isDuplicateGithubDelivery_def evictExpired_distinct distinct_update)

text \<open>
  C6: with the clock after the epoch (a recorded time is not 0), for the Linear cache
  (window 30 s) and the GitHub cache (window 5 min) alike: a first check of a key returns
  false and records the key with the current time; a check of a recorded key within the
  window returns true and leaves the cache as it is; a check once the window has elapsed
  returns false and records the key again; a check of one key keeps every entry of another
  key that has not expired, so the sweep removes expired entries only; and a key recorded
  at a time \<open>ts\<close> is reported seen by a check within the window whatever checks were
  made in between.
\<close>

theorem dedup_seen_contract:
  "(map_of m key = None \<longrightarrow>
      fst (linearSeen (t, t') key m) = False
      \<and> map_of (snd (linearSeen (t, t') key m)) key = Some t')
   \<and> (map_of m key = Some ts \<and> ts \<noteq> 0 \<and> t - ts < 30000 \<longrightarrow>
      linearSeen (t, t') key m = (True, m))
   \<and> (map_of m key = Some ts \<and> 30000 \<le> t - ts \<longrightarrow>
      fst (linearSeen (t, t') key m) = False
      \<and> map_of (snd (linearSeen (t, t') key m)) key = Some t')
   \<and> (map_of m j = Some ts \<and> \<not> (t - ts > 30000) \<and> j \<noteq> key \<longrightarrow>
      map_of (snd (linearSeen (t, t') key m)) j = Some ts)
   \<and> (map_of m key = Some ts \<and> ts \<noteq> 0 \<and> t - ts < 30000
       \<and> (\<forall>c\<in>set calls. fst (fst c) \<le> t) \<longrightarrow>
      linearSeen (t, t') key (linearSeenAll calls m) = (True, linearSeenAll calls m)
      \<and> map_of (linearSeenAll calls m) key = Some ts)
   \<and> (distinct (map fst m) \<longrightarrow> distinct (map fst (snd (linearSeen (t, t') key m))))
   \<and> (map_of g key = None \<longrightarrow>
      fst (isDuplicateGithubDelivery t key g) = False
      \<and> map_of (snd (isDuplicateGithubDelivery t key g)) key = Some t)
   \<and> (map_of g key = Some ts \<and> ts \<noteq> 0 \<and> t - ts < 300000 \<longrightarrow>
      isDuplicateGithubDelivery t key g = (True, g))
   \<and> (map_of g key = Some ts \<and> 300000 \<le> t - ts \<longrightarrow>
      fst (isDuplicateGithubDelivery t key g) = False
      \<and> map_of (snd (isDuplicateGithubDelivery t key g)) key = Some t)
   \<and> (map_of g j = Some ts \<and> \<not> (t - ts > 300000) \<and> j \<noteq> key \<longrightarrow>
      map_of (snd (isDuplicateGithubDelivery t key g)) j = Some ts)
   \<and> (map_of g key = Some ts \<and> ts \<noteq> 0 \<and> t - ts < 300000
       \<and> (\<forall>c\<in>set gcalls. fst c \<le> t) \<longrightarrow>
      isDuplicateGithubDelivery t key (githubSeenAll gcalls g) = (True, githubSeenAll gcalls g)
      \<and> map_of (githubSeenAll gcalls g) key = Some ts)
   \<and> (distinct (map fst g) \<longrightarrow>
      distinct (map fst (snd (isDuplicateGithubDelivery t key g))))"
proof -
  have l5: "linearSeen (t, t') key (linearSeenAll calls m) = (True, linearSeenAll calls m)
            \<and> map_of (linearSeenAll calls m) key = Some ts"
    if h: "map_of m key = Some ts \<and> ts \<noteq> 0 \<and> t - ts < 30000
           \<and> (\<forall>c\<in>set calls. fst (fst c) \<le> t)"
  proof -
    from h have "\<forall>c\<in>set calls. fst (fst c) - ts < 30000" by fastforce
    with h have "map_of (linearSeenAll calls m) key = Some ts"
      by (intro linearSeenAll_keeps) auto
    with h show ?thesis by (simp add: linearSeen_second)
  qed
  have g5: "isDuplicateGithubDelivery t key (githubSeenAll gcalls g)
              = (True, githubSeenAll gcalls g)
            \<and> map_of (githubSeenAll gcalls g) key = Some ts"
    if h: "map_of g key = Some ts \<and> ts \<noteq> 0 \<and> t - ts < 300000
           \<and> (\<forall>c\<in>set gcalls. fst c \<le> t)"
  proof -
    from h have "\<forall>c\<in>set gcalls. fst c - ts < 300000" by fastforce
    with h have "map_of (githubSeenAll gcalls g) key = Some ts"
      by (intro githubSeenAll_keeps) auto
    with h show ?thesis by (simp add: githubSeen_second)
  qed
  show ?thesis
  proof (intro conjI impI)
    show "distinct (map fst (snd (linearSeen (t, t') key m)))" if "distinct (map fst m)"
      using that by (rule linearSeen_distinct)
    show "distinct (map fst (snd (isDuplicateGithubDelivery t key g)))"
      if "distinct (map fst g)"
      using that by (rule githubSeen_distinct)
  qed (use l5 g5 in \<open>simp_all add: linearSeen_first linearSeen_second linearSeen_third
        linearSeen_unexpired_kept githubSeen_first githubSeen_second githubSeen_third
        githubSeen_unexpired_kept\<close>)
qed

theorem dedup_seen_contract_witness:
  "fst (linearSeen (1000, 1001) ''delivery:d1'' []) = False
   \<and> map_of (snd (linearSeen (1000, 1001) ''delivery:d1'' [])) ''delivery:d1'' = Some 1001
   \<and> linearSeen (3000, 3001) ''delivery:d1'' [(''delivery:d1'', 1001), (''other'', 1001)]
       = (True, [(''delivery:d1'', 1001), (''other'', 1001)])
   \<and> fst (linearSeen (31001, 31002) ''delivery:d1''
            [(''delivery:d1'', 1001), (''other'', 1001)]) = False
   \<and> map_of (snd (linearSeen (31001, 31002) ''delivery:d1''
            [(''delivery:d1'', 1001), (''other'', 1001)])) ''delivery:d1'' = Some 31002
   \<and> map_of (snd (linearSeen (3000, 3001) ''delivery:d1''
            [(''delivery:d1'', 1001), (''other'', 1001)])) ''other'' = Some 1001
   \<and> map_of (linearSeenAll [((2000, 2000), ''other''), ((2500, 2501), ''third'')]
            [(''delivery:d1'', 1001), (''other'', 1001)]) ''delivery:d1'' = Some 1001
   \<and> distinct (map fst (snd (linearSeen (3000, 3001) ''delivery:d1''
            [(''delivery:d1'', 1001), (''other'', 1001)])))
   \<and> fst (isDuplicateGithubDelivery 1000 ''delivery:d1'' []) = False
   \<and> map_of (snd (isDuplicateGithubDelivery 1000 ''delivery:d1'' [])) ''delivery:d1''
       = Some 1000
   \<and> isDuplicateGithubDelivery 3000 ''delivery:d1'' [(''delivery:d1'', 1001), (''other'', 1001)]
       = (True, [(''delivery:d1'', 1001), (''other'', 1001)])
   \<and> fst (isDuplicateGithubDelivery 301001 ''delivery:d1''
            [(''delivery:d1'', 1001), (''other'', 1001)]) = False
   \<and> map_of (snd (isDuplicateGithubDelivery 3000 ''delivery:d1''
            [(''delivery:d1'', 1001), (''other'', 1001)])) ''other'' = Some 1001
   \<and> map_of (githubSeenAll [(2000, ''other''), (2500, ''third'')]
            [(''delivery:d1'', 1001), (''other'', 1001)]) ''delivery:d1'' = Some 1001
   \<and> distinct (map fst (snd (isDuplicateGithubDelivery 3000 ''delivery:d1''
            [(''delivery:d1'', 1001), (''other'', 1001)])))"
proof -
  let ?k = "''delivery:d1''"
  let ?m = "[(''delivery:d1'', 1001::int), (''other'', 1001)]"
  note a = dedup_seen_contract [where m = "[]" and g = "[]" and key = ?k and t = 1000
      and t' = 1001 and ts = 0 and j = "[]" and calls = "[]" and gcalls = "[]"]
  note b = dedup_seen_contract [where m = ?m and g = ?m and key = ?k and t = 3000
      and t' = 3001 and ts = 1001 and j = "''other''"
      and calls = "[((2000, 2000), ''other''), ((2500, 2501), ''third'')]"
      and gcalls = "[(2000, ''other''), (2500, ''third'')]"]
  note c = dedup_seen_contract [where m = ?m and g = ?m and key = ?k and t = 31001
      and t' = 31002 and ts = 1001 and j = "[]" and calls = "[]" and gcalls = "[]"]
  note e = dedup_seen_contract [where m = ?m and g = ?m and key = ?k and t = 301001
      and t' = 301002 and ts = 1001 and j = "[]" and calls = "[]" and gcalls = "[]"]
  show ?thesis using a b c e by simp
qed

section \<open>Properties of the webhook handler\<close>

definition issuePayload :: "string option \<Rightarrow> LinearWebhookPayload" where
  "issuePayload wid =
     \<lparr>payload_action = Create, payload_type = Issue,
      payload_data = IssueData \<lparr>issueData_id = ''issue-1'', issueData_title = ''Fix it'',
        issueData_description = None, issueData_identifier = None,
        issueData_labels = Some labelsABC, issueData_labelIds = None\<rparr>,
      payload_updatedFrom_labelIds = None, payload_webhookId = wid\<rparr>"

text \<open>
  C8, as stated: without a delivery id the key is the composite of type, action and
  subject id. It fails for a payload that carries a \<open>webhookId\<close>: the key is then
  built from the webhook id.
\<close>

theorem dedupKey_webhookId_counterexample:
  "dedupKey None (issuePayload (Some ''wh-1'')) = ''webhook:wh-1''
   \<and> dedupKey None (issuePayload (Some ''wh-1''))
       \<noteq> getDeduplicationKey ''Issue'' ''create'' ''issue-1''"
  by (simp add: dedupKey_def truthyString_def issuePayload_def getDeduplicationKey_def)

text \<open>
  C8, amended: the deduplication key is \<open>delivery:\<close> followed by the delivery id when
  the request carries a non-empty one; otherwise \<open>webhook:\<close> followed by the payload's
  webhook id when it has a non-empty one; otherwise the composite \<open>type:action:id\<close> of
  the event's kind, operation and subject id.
\<close>

theorem dedupKey_precedence:
  "(deliveryId = Some d \<and> d \<noteq> [] \<longrightarrow> dedupKey deliveryId payload = ''delivery:'' @ d)
   \<and> ((deliveryId = None \<or> deliveryId = Some []) \<and> payload_webhookId payload = Some w
        \<and> w \<noteq> [] \<longrightarrow> dedupKey deliveryId payload = ''webhook:'' @ w)
   \<and> ((deliveryId = None \<or> deliveryId = Some [])
        \<and> (payload_webhookId payload = None \<or> payload_webhookId payload = Some [])
        \<longrightarrow> dedupKey deliveryId payload
            = typeName (payload_type payload) @ '':'' @ actionName (payload_action payload)
              @ '':'' @ data_id (payload_data payload))"
  by (auto simp: dedupKey_def truthyString_def getDeduplicationKey_def split: option.splits)

theorem dedupKey_precedence_witness:
  "dedupKey (Some ''d-7'') (issuePayload (Some ''wh-1'')) = ''delivery:d-7''
   \<and> dedupKey (Some []) (issuePayload (Some ''wh-1'')) = ''webhook:wh-1''
   \<and> dedupKey None (issuePayload None) = ''Issue:create:issue-1''"
proof -
  note a = dedupKey_precedence [where deliveryId = "Some ''d-7''" and d = "''d-7''"
      and payload = "issuePayload (Some ''wh-1'')" and w = "''wh-1''"]
  note b = dedupKey_precedence [where deliveryId = "Some []" and d = "[]"
      and payload = "issuePayload (Some ''wh-1'')" and w = "''wh-1''"]
  note c = dedupKey_precedence [where deliveryId = "None" and d = "[]"
      and payload = "issuePayload None" and w = "[]"]
  show ?thesis using a b c by (simp add: issuePayload_def)
qed
















section \<open>Properties of the permission decision\<close>

lemma extractPermissionToolNames_total: "\<exists>names. extractPermissionToolNames meta = Inr names"
  by (cases meta) (auto simp: extractPermissionToolNames_def split: option.splits json.splits)

lemma decidePermissionReply_total: "\<exists>r. decidePermissionReply data policy = Inr r"
proof -
  obtain names where "extractPermissionToolNames (metadata data) = Inr names"
    using extractPermissionToolNames_total by blast
  then show ?thesis by (simp add: decidePermissionReply_def Let_def)
qed

lemma setAdd_mono: "set xs \<subseteq> set (setAdd x xs)"
  by (auto simp: setAdd_def)

lemma setAdd_mem: "x \<in> set (setAdd x xs)"
  by (auto simp: setAdd_def)

lemma addRuleToolName_mono: "set acc \<subseteq> set (addRuleToolName rule acc)"
  using setAdd_mono by (auto simp: addRuleToolName_def split: json.splits)

lemma fold_addRuleToolName_mono: "set acc \<subseteq> set (fold addRuleToolName rules acc)"
proof (induction rules arbitrary: acc)
  case Nil
  then show ?case by simp
next
  case (Cons r rules)
  have "set acc \<subseteq> set (addRuleToolName r acc)" by (rule addRuleToolName_mono)
  also have "\<dots> \<subseteq> set (fold addRuleToolName rules (addRuleToolName r acc))" by (rule Cons.IH)
  finally show ?case by simp
qed

lemma addRuleToolName_names:
  "ruleNames t rule \<Longrightarrow> trim t \<noteq> [] \<Longrightarrow> trim t \<in> set (addRuleToolName rule acc)"
  by (auto simp: ruleNames_def addRuleToolName_def setAdd_mem split: json.splits)

lemma fold_addRuleToolName_names:
  "list_ex (ruleNames t) rules \<Longrightarrow> trim t \<noteq> [] \<Longrightarrow>
   trim t \<in> set (fold addRuleToolName rules acc)"
proof (induction rules arbitrary: acc)
  case Nil
  then show ?case by simp
next
  case (Cons r rules)
  show ?case
  proof (cases "ruleNames t r")
    case True
    with Cons.prems have "trim t \<in> set (addRuleToolName r acc)"
      by (simp add: addRuleToolName_names)
    then show ?thesis using fold_addRuleToolName_mono by fastforce
  next
    case False
    with Cons show ?thesis by simp
  qed
qed

lemma addSuggestionToolNames_mono: "set acc \<subseteq> set (addSuggestionToolNames s acc)"
  using fold_addRuleToolName_mono by (auto simp: addSuggestionToolNames_def split: json.splits)

lemma fold_addSuggestionToolNames_mono:
  "set acc \<subseteq> set (fold addSuggestionToolNames ss acc)"
proof (induction ss arbitrary: acc)
  case Nil
  then show ?case by simp
next
  case (Cons s ss)
  have "set acc \<subseteq> set (addSuggestionToolNames s acc)" by (rule addSuggestionToolNames_mono)
  also have "\<dots> \<subseteq> set (fold addSuggestionToolNames ss (addSuggestionToolNames s acc))"
    by (rule Cons.IH)
  finally show ?case by simp
qed

lemma addSuggestionToolNames_names:
  "suggestionNames t s \<Longrightarrow> trim t \<noteq> [] \<Longrightarrow> trim t \<in> set (addSuggestionToolNames s acc)"
  by (auto simp: suggestionNames_def addSuggestionToolNames_def fold_addRuleToolName_names
      split: json.splits option.splits)

lemma fold_addSuggestionToolNames_names:
  "list_ex (suggestionNames t) ss \<Longrightarrow> trim t \<noteq> [] \<Longrightarrow>
   trim t \<in> set (fold addSuggestionToolNames ss acc)"
proof (induction ss arbitrary: acc)
  case Nil
  then show ?case by simp
next
  case (Cons s ss)
  show ?case
  proof (cases "suggestionNames t s")
    case True
    with Cons.prems have "trim t \<in> set (addSuggestionToolNames s acc)"
      by (simp add: addSuggestionToolNames_names)
    then show ?thesis using fold_addSuggestionToolNames_mono by fastforce
  next
    case False
    with Cons show ?thesis by simp
  qed
qed

lemma extractPermissionToolNames_names:
  "namesTool meta t \<Longrightarrow> trim t \<noteq> [] \<Longrightarrow>
   \<exists>names. extractPermissionToolNames meta = Inr names \<and> trim t \<in> set names"
  by (auto simp: namesTool_def extractPermissionToolNames_def fold_addSuggestionToolNames_names
      split: json.splits option.splits)

lemma linearMcpToolRx_nonempty: "\<not> rx_test linearMcpToolRx []"
  by (simp add: rx_test_def linearMcpToolRx_def)

lemma decide_rejects:
  assumes "namesTool (metadata data) t" and "rx_test linearMcpToolRx (trim t)"
    and "policy \<noteq> DefaultPolicy"
  shows "decidePermissionReply data policy = Inr Reject"
proof -
  from assms(2) have "trim t \<noteq> []" using linearMcpToolRx_nonempty by auto
  with assms(1) obtain names where n: "extractPermissionToolNames (metadata data) = Inr names"
    and m: "trim t \<in> set names"
    using extractPermissionToolNames_names by blast
  from m assms(2) have "list_ex (\<lambda>t. rx_test linearMcpToolRx t) names"
    by (auto simp: list_ex_iff)
  with n assms(3) show ?thesis by (simp add: decidePermissionReply_def)
qed

definition suggestionMetadata :: "string \<Rightarrow> json" where
  "suggestionMetadata toolName =
     JObj [(''permissionSuggestions'',
            JArr [JNull, JObj [(''rules'', JArr [JStr ''x'', JObj [(''toolName'', JStr toolName)]])]])]"

definition permissionRequest :: "json \<Rightarrow> PermissionEventData" where
  "permissionRequest meta =
     \<lparr>permission_id = ''perm-1'', permission_action = ''tool'', metadata = meta\<rparr>"

text \<open>
  C5: for every policy and every metadata value (missing, null, or of any other shape)
  the decision returns a reply, \<open>once\<close> or \<open>reject\<close>, and does not throw; under the
  default policy the reply is \<open>once\<close>; under the mention-reply policy a request that
  names a tool whose trimmed name matches \<open>/^mcp__.*linear/i\<close>, a Linear MCP tool, is
  rejected.
\<close>

theorem decidePermissionReply_total_and_policies:
  "(\<exists>reply. decidePermissionReply data policy = Inr reply)
   \<and> decidePermissionReply data DefaultPolicy = Inr Once
   \<and> (namesTool (metadata data) t \<and> rx_test linearMcpToolRx (trim t) \<longrightarrow>
        decidePermissionReply data MentionReply = Inr Reject)"
  using decidePermissionReply_total [of data policy] decide_rejects [of data t MentionReply]
  by (simp add: decidePermissionReply_def)

theorem decidePermissionReply_total_and_policies_witness:
  "namesTool (metadata (permissionRequest (suggestionMetadata '' mcp__Linear__create_comment'')))
     '' mcp__Linear__create_comment''
   \<and> rx_test linearMcpToolRx (trim '' mcp__Linear__create_comment'')
   \<and> decidePermissionReply (permissionRequest (suggestionMetadata '' mcp__Linear__create_comment''))
       MentionReply = Inr Reject
   \<and> decidePermissionReply (permissionRequest (suggestionMetadata '' mcp__Linear__create_comment''))
       DefaultPolicy = Inr Once"
proof -
  have names: "namesTool
      (metadata (permissionRequest (suggestionMetadata '' mcp__Linear__create_comment'')))
      '' mcp__Linear__create_comment''"
    by code_simp
  have linear: "rx_test linearMcpToolRx (trim '' mcp__Linear__create_comment'')"
    by code_simp
  from decidePermissionReply_total_and_policies
         [of "permissionRequest (suggestionMetadata '' mcp__Linear__create_comment'')"
             MentionReply "'' mcp__Linear__create_comment''"]
       names linear
  show ?thesis by simp
qed

section \<open>Properties of result finalization\<close>

lemma finalizeResult_fields:
  "success (fst (finalizeResult ws result detect)) = success result
   \<and> sessionId (fst (finalizeResult ws result detect)) = sessionId result
   \<and> reason (fst (finalizeResult ws result detect)) = reason result
   \<and> answer (fst (finalizeResult ws result detect)) = answer result
   \<and> error (fst (finalizeResult ws result detect)) = error result"
  by (simp add: finalizeResult_def Let_def split: sum.split prod.split)

lemma finalizeResult_untouched:
  "\<not> detect \<or> filesModified result \<noteq> [] \<Longrightarrow> finalizeResult ws result detect = (result, [])"
  by (auto simp: finalizeResult_def)




lemma finalizeResult_changed:
  "detect \<and> filesModified result = []" if "fst (finalizeResult ws result detect) \<noteq> result"
proof (rule ccontr)
  assume "\<not> (detect \<and> filesModified result = [])"
  then have "finalizeResult ws result detect = (result, [])"
    by (intro finalizeResult_untouched) auto
  with that show False by simp
qed


definition dirtyWorkspace :: Workspace where
  "dirtyWorkspace =
     \<lparr>gitStatusPorcelain = Inr ('' M src/a.ts'' @ [CHR 0x0A] @ ''?? b.txt'' @ [CHR 0x0A]),
      gitSymbolicRefOriginHead = Inr (''refs/remotes/origin/main'' @ [CHR 0x0A]),
      gitDiffNameOnly = (\<lambda>base. Inr (''c.ts'' @ [CHR 0x0A]))\<rparr>"




section \<open>Properties of the runner\<close>

lemma handledEvents_append [simp]:
  "handledEvents (a @ b) = handledEvents a @ handledEvents b"
  by (simp add: handledEvents_def)

lemma handledEvents_Nil [simp]: "handledEvents [] = []"
  by (simp add: handledEvents_def)

lemma handledEvents_minor: "\<forall>x\<in>set ext. minorEffect (snd x) \<Longrightarrow> handledEvents ext = []"
proof (induction ext)
  case Nil
  then show ?case by simp
next
  case (Cons x ext)
  obtain t e where x: "x = (t, e)" by (cases x)
  with Cons.prems have "minorEffect e" by simp
  then have "handledOf (t, e) = []" by (cases e) simp_all
  with Cons x show ?case by (simp add: handledEvents_def)
qed

lemma extends_refl: "extends s s"
  by (simp add: extends_def)

lemma extends_trans: "extends a b \<Longrightarrow> extends b c \<Longrightarrow> extends a c"
  unfolding extends_def by (elim conjE exE) (rule conjI, simp, rule conjI, simp, rule conjI, simp,
    metis (no_types, lifting) UnE append.assoc set_append)

lemma extends_emit: "minorEffect x \<Longrightarrow> extends s (emit x s)"
  by (simp add: extends_def emit_def)

lemma extends_fold_git: "extends s (fold (\<lambda>c. emit (Git c)) cmds s)"
proof (induction cmds arbitrary: s)
  case Nil
  then show ?case by (simp add: extends_refl)
next
  case (Cons c cmds)
  have "extends s (emit (Git c) s)" by (simp add: extends_emit)
  with Cons [of "emit (Git c) s"] show ?case using extends_trans by auto
qed

lemma extends_finish: "extends s (stateOf (finish cfg rt r s))"
  by (simp add: finish_def extends_fold_git split: prod.split)

lemma extends_handlePart: "extends s (handlePart cfg now part s)"
  by (cases part) (simp_all add: handlePart_def extends_emit extends_refl, simp add: extends_def)

lemma extends_fold_handlePart: "extends s (fold (handlePart cfg now) parts s)"
proof (induction parts arbitrary: s)
  case Nil
  then show ?case by (simp add: extends_refl)
next
  case (Cons p parts)
  from extends_handlePart [of s cfg now p] Cons [of "handlePart cfg now p s"]
  show ?case using extends_trans by auto
qed

lemma extends_handleItemCompleted: "extends s (handleItemCompleted cfg rt item s)"
  by (simp add: handleItemCompleted_def extends_fold_handlePart extends_refl split: option.split)

lemma extends_fields:
  "extends s s' \<Longrightarrow> extends s (s'\<lparr>st_lastProgressTime := a\<rparr>)"
  "extends s s' \<Longrightarrow> extends s (s'\<lparr>st_lastAssistantMessage := b\<rparr>)"
  "extends s s' \<Longrightarrow> extends s (s'\<lparr>st_sawFailed := c, st_sawCompleted := d\<rparr>)"
  by (simp_all add: extends_def)

lemma extends_noteItem: "extends s s' \<Longrightarrow> extends s (noteItem item s')"
  by (simp add: noteItem_def extends_fields split: option.split)

lemma extends_handleEvent: "extends s (stateOf (handleEvent cfg rt event s))"
proof (cases event)
  case SessionStarted
  then show ?thesis by (simp add: handleEvent_def extends_emit)
next
  case (ItemCompleted item)
  then show ?thesis
    by (simp add: handleEvent_def extends_noteItem extends_fields extends_handleItemCompleted)
next
  case (PermissionRequested permData)
  have a: "extends s (emit (ReplyPermission i r) (emit (Log l) s))" for i r l
    using extends_trans [OF extends_emit [of "Log l" s]
        extends_emit [of "ReplyPermission i r" "emit (Log l) s"]] by simp
  from PermissionRequested show ?thesis
    by (simp add: handleEvent_def extends_emit extends_refl a split: sum.split option.split)
next
  case (QuestionRequested q)
  then show ?thesis by (simp add: handleEvent_def extends_emit split: option.split)
next
  case (SessionEnded r m)
  then show ?thesis by (simp add: handleEvent_def extends_finish)
next
  case (OtherEvent ty)
  then show ?thesis by (simp add: handleEvent_def extends_refl)
qed

lemma reach_sentTurn:
  "(run_step cfg rt)\<^sup>*\<^sup>* s s' \<Longrightarrow> st_sentTurn s \<Longrightarrow> st_sentTurn s'"
proof (induction rule: rtranclp_induct)
  case base
  then show ?case by simp
next
  case (step y z)
  from step.hyps(2) step.IH [OF step.prems] show ?case
  proof cases
    case (handled src)
    let ?e = "sessionLog rt ! st_offset y"
    from extends_handleEvent [of "emit (Handled src ?e) (y\<lparr>st_offset := Suc (st_offset y)\<rparr>)"
        cfg rt ?e] handled
    show ?thesis by (simp add: extends_def emit_def)
  qed (simp_all add: tick_def emit_def)
qed

lemma reach_fold_git:
  "st_sentTurn s \<Longrightarrow> (run_step cfg rt)\<^sup>*\<^sup>* s (fold (\<lambda>c. emit (Git c)) cmds s)"
proof (induction cmds arbitrary: s)
  case Nil
  then show ?case by simp
next
  case (Cons c cmds)
  from Cons.prems have a: "run_step cfg rt s (emit (Git c) s)" by (rule run_step.inspected)
  from Cons.prems have "st_sentTurn (emit (Git c) s)" by (simp add: emit_def)
  from Cons.IH [OF this] a show ?case by (simp add: converse_rtranclp_into_rtranclp)
qed

lemma reach_finish:
  "st_sentTurn s \<Longrightarrow> (run_step cfg rt)\<^sup>*\<^sup>* s (stateOf (finish cfg rt r s))"
  by (simp add: finish_def reach_fold_git split: prod.split)

lemma handled_step:
  assumes "st_sentTurn s" and "st_offset s < length (sessionLog rt)"
    and "event = sessionLog rt ! st_offset s" and "src = Streamed \<longrightarrow> \<not> aborted rt s"
  shows "run_step cfg rt s
           (stateOf (handleEvent cfg rt event
              (emit (Handled src event) (s\<lparr>st_offset := Suc (st_offset s)\<rparr>))))"
  using run_step.handled [of s rt src cfg] assms by simp

lemma handled_state:
  "st_offset (stateOf (handleEvent cfg rt event
       (emit (Handled src event) (s\<lparr>st_offset := Suc (st_offset s)\<rparr>)))) = Suc (st_offset s)
   \<and> st_sentTurn (stateOf (handleEvent cfg rt event
       (emit (Handled src event) (s\<lparr>st_offset := Suc (st_offset s)\<rparr>)))) = st_sentTurn s"
  using extends_handleEvent [of "emit (Handled src event) (s\<lparr>st_offset := Suc (st_offset s)\<rparr>)"
      cfg rt event]
  by (simp add: extends_def emit_def)

lemma reach_handlePage:
  assumes "st_sentTurn s"
    and "\<forall>i<length es. st_offset s + i < length (sessionLog rt)
                        \<and> es ! i = sessionLog rt ! (st_offset s + i)"
  shows "(run_step cfg rt)\<^sup>*\<^sup>* s (stateOf (handlePage cfg rt es s))"
  using assms
proof (induction es arbitrary: s)
  case Nil
  then show ?case by simp
next
  case (Cons e es)
  let ?r = "handleEvent cfg rt e (emit (Handled Polled e) (s\<lparr>st_offset := Suc (st_offset s)\<rparr>))"
  from Cons.prems(2) have e: "st_offset s < length (sessionLog rt)"
    "e = sessionLog rt ! st_offset s" by auto
  with Cons.prems(1) have one: "run_step cfg rt s (stateOf ?r)"
    by (intro handled_step) simp_all
  show ?case
  proof (cases ?r)
    case (Next s')
    with handled_state [of cfg rt e Polled s] Cons.prems(1)
    have s': "st_offset s' = Suc (st_offset s)" "st_sentTurn s'" by simp_all
    have "\<forall>i<length es. st_offset s' + i < length (sessionLog rt)
                        \<and> es ! i = sessionLog rt ! (st_offset s' + i)"
    proof (intro allI impI)
      fix i assume "i < length es"
      with Cons.prems(2) [rule_format, of "Suc i"] s' 
      show "st_offset s' + i < length (sessionLog rt)
            \<and> es ! i = sessionLog rt ! (st_offset s' + i)" by simp
    qed
    from Cons.IH [OF s'(2) this] one Next show ?thesis
      by (simp add: converse_rtranclp_into_rtranclp)
  qed (use one in auto)
qed

lemma reach_streamLoop:
  assumes "st_sentTurn s"
    and "\<forall>i<length es. st_offset s + i < length (sessionLog rt)
                        \<and> es ! i = sessionLog rt ! (st_offset s + i)"
    and "rest = [] \<or> (\<exists>err. rest = [SError err])"
  shows "(run_step cfg rt)\<^sup>*\<^sup>* s (stateOf (streamLoop cfg rt (map SEvent es @ rest) s))"
  using assms(1,2)
proof (induction es arbitrary: s)
  case Nil
  have "run_step cfg rt s (tick s)" by (rule run_step.awaited)
  with assms(3) show ?case by auto
next
  case (Cons e es)
  have t: "run_step cfg rt s (tick s)" by (rule run_step.awaited)
  let ?r = "handleEvent cfg rt e
              (emit (Handled Streamed e) ((tick s)\<lparr>st_offset := Suc (st_offset s)\<rparr>))"
  show ?case
  proof (cases "aborted rt (tick s)")
    case True
    with t show ?thesis by auto
  next
    case False
    from Cons.prems(2) have e: "st_offset s < length (sessionLog rt)"
      "e = sessionLog rt ! st_offset s" by auto
    with Cons.prems(1) False
    have "run_step cfg rt (tick s)
            (stateOf (handleEvent cfg rt e
               (emit (Handled Streamed e) ((tick s)\<lparr>st_offset := Suc (st_offset (tick s))\<rparr>))))"
      by (intro handled_step) (simp_all add: tick_def)
    then have one: "run_step cfg rt (tick s) (stateOf ?r)" by (simp add: tick_def)
    show ?thesis
    proof (cases ?r)
      case (Next s')
      with handled_state [of cfg rt e Streamed "tick s"] Cons.prems(1)
      have s': "st_offset s' = Suc (st_offset s)" "st_sentTurn s'" by (simp_all add: tick_def)
      have "\<forall>i<length es. st_offset s' + i < length (sessionLog rt)
                          \<and> es ! i = sessionLog rt ! (st_offset s' + i)"
      proof (intro allI impI)
        fix i assume "i < length es"
        with Cons.prems(2) [rule_format, of "Suc i"] s'
        show "st_offset s' + i < length (sessionLog rt)
              \<and> es ! i = sessionLog rt ! (st_offset s' + i)" by simp
      qed
      from Cons.IH [OF s'(2) this] one t Next False show ?thesis
        by (simp add: converse_rtranclp_into_rtranclp)
    qed (use one t False in \<open>auto intro: converse_rtranclp_into_rtranclp\<close>)
  qed
qed

lemma getEvents_page:
  assumes "getEvents rt now offset limit = Inr response"
  shows "\<forall>i<length (fst response). offset + i < length (sessionLog rt)
                        \<and> fst response ! i = sessionLog rt ! (offset + i)"
proof -
  from assms have r: "fst response
      = take limit (drop offset (take (available rt now) (sessionLog rt)))"
    by (auto simp: getEvents_def split: option.splits)
  show ?thesis
  proof (intro allI impI)
    fix i assume "i < length (fst response)"
    with r have i: "i < limit" "offset + i < available rt now"
      "offset + i < length (sessionLog rt)" by auto
    with r show "offset + i < length (sessionLog rt)
                 \<and> fst response ! i = sessionLog rt ! (offset + i)" by simp
  qed
qed

lemma reach_pollEvents:
  "st_sentTurn s \<Longrightarrow> (run_step cfg rt)\<^sup>*\<^sup>* s (stateOf (pollEvents cfg rt s))"
proof (induction cfg rt s rule: pollEvents.induct)
  case (1 cfg rt s)
  let ?s = "tick (emit (GetEvents (st_offset s) 100) s)"
  show ?case
  proof (cases "aborted rt s")
    case True
    then show ?thesis by simp
  next
    case False
    with "1.prems" have "run_step cfg rt s (emit (GetEvents (st_offset s) 100) s)"
      by (intro run_step.page)
    moreover have "run_step cfg rt (emit (GetEvents (st_offset s) 100) s) ?s"
      by (rule run_step.awaited)
    ultimately have two: "(run_step cfg rt)\<^sup>*\<^sup>* s ?s" by auto
    have st: "st_sentTurn ?s" "st_offset ?s = st_offset s"
      using "1.prems" by (simp_all add: tick_def emit_def)
    show ?thesis
    proof (cases "getEvents rt (st_clock s) (st_offset s) 100")
      case (Inl e)
      with False two show ?thesis by simp
    next
      case (Inr response)
      from getEvents_page [OF Inr] st(2)
      have "\<forall>i<length (fst response). st_offset ?s + i < length (sessionLog rt)
                        \<and> fst response ! i = sessionLog rt ! (st_offset ?s + i)" by simp
      from reach_handlePage [OF st(1) this]
      have pg: "(run_step cfg rt)\<^sup>*\<^sup>* ?s (stateOf (handlePage cfg rt (fst response) ?s))" .
      show ?thesis
      proof (cases "handlePage cfg rt (fst response) ?s")
        case (Next s')
        from pg Next two have r: "(run_step cfg rt)\<^sup>*\<^sup>* s s'" by simp
        with "1.prems" have s': "st_sentTurn s'" by (rule reach_sentTurn [rotated])
        show ?thesis
        proof (cases "snd response \<and> fst response \<noteq> []")
          case True
          with "1.IH" [OF False Inr Next _ s'] r False Inr Next show ?thesis by simp
        next
          case no: False
          with r False Inr Next show ?thesis by auto
        qed
      qed (use pg two False Inr in auto)
    qed
  qed
qed

lemma streamItems_shape:
  "\<exists>rest. streamItems rt = map SEvent (take (streamCount rt) (sessionLog rt)) @ rest
          \<and> (rest = [] \<or> (\<exists>err. rest = [SError err]))"
  by (simp add: streamItems_def split: option.split)

lemma reach_mainLoop:
  "st_sentTurn s \<or> st_offset s = 0 \<Longrightarrow>
   (run_step cfg rt)\<^sup>*\<^sup>* s (stateOf (mainLoop cfg rt s))"
proof (induction cfg rt s rule: mainLoop.induct)
  case (1 cfg rt s)
  let ?s0 = "emit StreamTurn (s\<lparr>st_sentTurn := True\<rparr>)"
  let ?first = "if \<not> st_sentTurn s then streamLoop cfg rt (streamItems rt) ?s0 else Next s"
  show ?case
  proof (cases "aborted rt s")
    case True
    then show ?thesis by simp
  next
    case False
    have first: "(run_step cfg rt)\<^sup>*\<^sup>* s (stateOf ?first)"
    proof (cases "st_sentTurn s")
      case True
      then show ?thesis by simp
    next
      case unsent: False
      with False have a: "run_step cfg rt s ?s0" by (intro run_step.turn)
      from unsent "1.prems" have o: "st_offset ?s0 = 0" "st_sentTurn ?s0"
        by (simp_all add: emit_def)
      obtain rest where rest: "streamItems rt
            = map SEvent (take (streamCount rt) (sessionLog rt)) @ rest"
          "rest = [] \<or> (\<exists>err. rest = [SError err])"
        using streamItems_shape by blast
      have "\<forall>i<length (take (streamCount rt) (sessionLog rt)).
              st_offset ?s0 + i < length (sessionLog rt)
              \<and> take (streamCount rt) (sessionLog rt) ! i = sessionLog rt ! (st_offset ?s0 + i)"
        using o(1) by simp
      from reach_streamLoop [OF o(2) this rest(2)] rest(1) a unsent show ?thesis
        by (simp add: converse_rtranclp_into_rtranclp)
    qed
    from first "1.prems" have sent: "st_sentTurn (stateOf ?first)"
    proof (cases "st_sentTurn s")
      case True
      then show ?thesis by simp
    next
      case unsent: False
      with False have "run_step cfg rt s ?s0" by (intro run_step.turn)
      have "st_sentTurn ?s0" by (simp add: emit_def)
      moreover have "(run_step cfg rt)\<^sup>*\<^sup>* ?s0 (stateOf ?first)"
      proof -
        obtain rest where rest: "streamItems rt
              = map SEvent (take (streamCount rt) (sessionLog rt)) @ rest"
            "rest = [] \<or> (\<exists>err. rest = [SError err])"
          using streamItems_shape by blast
        from unsent "1.prems" have o: "st_offset ?s0 = 0" "st_sentTurn ?s0"
          by (simp_all add: emit_def)
        have "\<forall>i<length (take (streamCount rt) (sessionLog rt)).
              st_offset ?s0 + i < length (sessionLog rt)
              \<and> take (streamCount rt) (sessionLog rt) ! i = sessionLog rt ! (st_offset ?s0 + i)"
          using o(1) by simp
        from reach_streamLoop [OF o(2) this rest(2)] rest(1) unsent show ?thesis by simp
      qed
      ultimately show ?thesis by (rule reach_sentTurn [rotated])
    qed
    show ?thesis
    proof (cases ?first)
      case (Next s1)
      with first sent have s1: "(run_step cfg rt)\<^sup>*\<^sup>* s s1" "st_sentTurn s1" by simp_all
      from reach_pollEvents [OF s1(2)]
      have p: "(run_step cfg rt)\<^sup>*\<^sup>* s1 (stateOf (pollEvents cfg rt s1))" .
      show ?thesis
      proof (cases "pollEvents cfg rt s1")
        case n2: (Next s2)
        with p s1 have s2: "(run_step cfg rt)\<^sup>*\<^sup>* s s2" by simp
        with "1.prems" s1 p n2 have sent2: "st_sentTurn s2"
          using reach_sentTurn by fastforce
        show ?thesis
        proof (cases "st_sawFailed s2")
          case True
          from reach_finish [OF sent2, of cfg rt "failedItemResult cfg s2"] s2
          have "(run_step cfg rt)\<^sup>*\<^sup>* s (stateOf (finish cfg rt (failedItemResult cfg s2) s2))"
            by simp
          with False Next n2 True show ?thesis by simp
        next
          case nf: False
          show ?thesis
          proof (cases "st_sawCompleted s2")
            case True
            from reach_finish [OF sent2, of cfg rt "completedItemResult cfg s2"] s2
            have "(run_step cfg rt)\<^sup>*\<^sup>* s
                    (stateOf (finish cfg rt (completedItemResult cfg s2) s2))"
              by simp
            with False Next n2 nf True show ?thesis by simp
          next
            case nc: False
            let ?s3 = "tick (emit (Delay 1000) s2)"
            from sent2 have "run_step cfg rt s2 (emit (Delay 1000) s2)"
              by (rule run_step.backoff)
            moreover have "run_step cfg rt (emit (Delay 1000) s2) ?s3"
              by (rule run_step.awaited)
            ultimately have "(run_step cfg rt)\<^sup>*\<^sup>* s ?s3" using s2 by auto
            moreover from sent2 have "st_sentTurn ?s3 \<or> st_offset ?s3 = 0"
              by (simp add: tick_def emit_def)
            from "1.IH" [OF False Next n2 nf nc this]
            have "(run_step cfg rt)\<^sup>*\<^sup>* ?s3 (stateOf (mainLoop cfg rt ?s3))" .
            ultimately have "(run_step cfg rt)\<^sup>*\<^sup>* s (stateOf (mainLoop cfg rt ?s3))" by simp
            with False Next n2 nf nc show ?thesis by simp
          qed
        qed
      qed (use p s1 False Next in auto)
    qed (use first False in auto)
  qed
qed

lemma set_firstOccurrences [simp]: "set (firstOccurrences xs) = set xs"
  by (simp add: firstOccurrences_def)

lemma distinct_firstOccurrences: "distinct (firstOccurrences xs)"
  by (simp add: firstOccurrences_def)

lemma firstOccurrences_snoc: "firstOccurrences (xs @ [x]) = setAdd x (firstOccurrences xs)"
  by (simp add: firstOccurrences_def setAdd_def)

lemma fold_setAdd_firstOccurrences:
  "fold setAdd ps (firstOccurrences xs) = firstOccurrences (xs @ ps)"
proof (induction ps arbitrary: xs)
  case Nil
  then show ?case by simp
next
  case (Cons p ps)
  from Cons [of "xs @ [p]"] show ?case by (simp add: firstOccurrences_snoc)
qed

lemma files_fold_git: "st_filesModified (fold (\<lambda>c. emit (Git c)) cmds s) = st_filesModified s"
  by (induction cmds arbitrary: s) (simp_all add: emit_def)

lemma flags_fold_git:
  "st_sawFailed (fold (\<lambda>c. emit (Git c)) cmds s) = st_sawFailed s
   \<and> st_sawCompleted (fold (\<lambda>c. emit (Git c)) cmds s) = st_sawCompleted s"
  by (induction cmds arbitrary: s) (simp_all add: emit_def)

lemma files_finish: "st_filesModified (stateOf (finish cfg rt r s)) = st_filesModified s"
  by (simp add: finish_def files_fold_git split: prod.split)

lemma files_handlePart:
  "st_filesModified (handlePart cfg now part s) = fold setAdd (writtenPath part) (st_filesModified s)"
  by (cases part) (auto simp: handlePart_def setAdd_def emit_def)

lemma files_fold_handlePart:
  "st_filesModified (fold (handlePart cfg now) parts s)
     = fold setAdd (concat (map writtenPath parts)) (st_filesModified s)"
  by (induction parts arbitrary: s) (simp_all add: files_handlePart)

lemma files_noteItem: "st_filesModified (noteItem item s) = st_filesModified s"
  by (simp add: noteItem_def split: option.split)

lemma files_handleEvent:
  "st_filesModified (stateOf (handleEvent cfg rt event s))
     = fold setAdd (writtenPaths event) (st_filesModified s)"
proof (cases event)
  case (ItemCompleted item)
  then show ?thesis
    by (cases item)
       (simp_all add: handleEvent_def files_noteItem handleItemCompleted_def
          files_fold_handlePart)
next
  case (SessionEnded r m)
  then show ?thesis by (simp add: handleEvent_def files_finish)
qed (simp_all add: handleEvent_def emit_def split: sum.split option.split)

lemma flags_handlePart:
  "st_sawFailed (handlePart cfg now part s) = st_sawFailed s
   \<and> st_sawCompleted (handlePart cfg now part s) = st_sawCompleted s"
  by (cases part) (simp_all add: handlePart_def emit_def)

lemma flags_fold_handlePart:
  "st_sawFailed (fold (handlePart cfg now) parts s) = st_sawFailed s
   \<and> st_sawCompleted (fold (handlePart cfg now) parts s) = st_sawCompleted s"
  by (induction parts arbitrary: s) (simp_all add: flags_handlePart)

lemma flags_handleEvent:
  "quiet event \<Longrightarrow>
   st_sawFailed (stateOf (handleEvent cfg rt event s)) = st_sawFailed s
   \<and> st_sawCompleted (stateOf (handleEvent cfg rt event s)) = st_sawCompleted s"
proof (cases event)
  case (ItemCompleted item)
  assume "quiet event"
  with ItemCompleted show ?thesis
    by (cases item)
       (simp_all add: handleEvent_def noteItem_def handleItemCompleted_def
          flags_fold_handlePart)
qed (simp_all add: handleEvent_def emit_def split: sum.split option.split)


text \<open>The entries a handled step adds to the trace.\<close>

lemma handled_trace:
  "\<exists>ext. st_trace (stateOf (handleEvent cfg rt event
              (emit (Handled src event) (s\<lparr>st_offset := Suc (st_offset s)\<rparr>))))
            = st_trace s @ (st_clock s, Handled src event) # ext
         \<and> (\<forall>x\<in>set ext. minorEffect (snd x) \<and> fst x = st_clock s)"
  using extends_handleEvent [of "emit (Handled src event) (s\<lparr>st_offset := Suc (st_offset s)\<rparr>)"
      cfg rt event]
  by (auto simp: extends_def emit_def)

lemma handledEvents_snoc_handled:
  "handledEvents ((t, Handled src event) # ext) = event # handledEvents ext"
  by (simp add: handledEvents_def)

lemma handledEvents_single [simp]:
  "handledEvents [(t, GetEvents a b)] = []" "handledEvents [(t, StreamTurn)] = []"
  "handledEvents [(t, Delay d)] = []" "handledEvents [(t, Git c)] = []"
  by (simp_all add: handledEvents_def)

lemma logPrefix_step: "run_step cfg rt s s' \<Longrightarrow> logPrefix rt s \<Longrightarrow> logPrefix rt s'"
proof (induction rule: run_step.induct)
  case (handled s src)
  let ?e = "sessionLog rt ! st_offset s"
  obtain ext where ext: "st_trace (stateOf (handleEvent cfg rt ?e
              (emit (Handled src ?e) (s\<lparr>st_offset := Suc (st_offset s)\<rparr>))))
            = st_trace s @ (st_clock s, Handled src ?e) # ext"
      "\<forall>x\<in>set ext. minorEffect (snd x) \<and> fst x = st_clock s"
    using handled_trace by blast
  from ext(2) have "handledEvents ext = []" by (intro handledEvents_minor) simp
  with ext(1) handled show ?case
    by (simp add: logPrefix_def handled_state handledEvents_snoc_handled take_Suc_conv_app_nth)
qed (simp_all add: logPrefix_def tick_def emit_def)

lemma logPrefix_reach:
  "(run_step cfg rt)\<^sup>*\<^sup>* s s' \<Longrightarrow> logPrefix rt s \<Longrightarrow> logPrefix rt s'"
  by (induction rule: rtranclp_induct) (auto intro: logPrefix_step)

lemma pollOffsetsFrom_append:
  "pollOffsetsFrom n (a @ b)
     = (pollOffsetsFrom n a \<and> pollOffsetsFrom (n + length (handledEvents a)) b)"
  by (induction n a rule: pollOffsetsFrom.induct) (simp_all add: handledEvents_def)

lemma pollOffsetsFrom_minor:
  "\<forall>x\<in>set ext. minorEffect (snd x) \<Longrightarrow> pollOffsetsFrom n ext"
proof (induction ext)
  case Nil
  then show ?case by simp
next
  case (Cons x ext)
  obtain t e where x: "x = (t, e)" by (cases x)
  with Cons.prems have "minorEffect e" by simp
  with Cons x show ?case by (cases e) simp_all
qed

lemma pollOffsets_step:
  "run_step cfg rt s s' \<Longrightarrow> logPrefix rt s \<Longrightarrow> pollOffsetsFrom 0 (st_trace s) \<Longrightarrow>
   pollOffsetsFrom 0 (st_trace s')"
proof (induction rule: run_step.induct)
  case (handled s src)
  let ?e = "sessionLog rt ! st_offset s"
  obtain ext where ext: "st_trace (stateOf (handleEvent cfg rt ?e
              (emit (Handled src ?e) (s\<lparr>st_offset := Suc (st_offset s)\<rparr>))))
            = st_trace s @ (st_clock s, Handled src ?e) # ext"
      "\<forall>x\<in>set ext. minorEffect (snd x) \<and> fst x = st_clock s"
    using handled_trace by blast
  from ext(2) have "pollOffsetsFrom n ext" for n by (intro pollOffsetsFrom_minor) simp
  with ext(1) handled show ?case by (simp add: pollOffsetsFrom_append)
next
  case (page s)
  then show ?case by (simp add: emit_def pollOffsetsFrom_append logPrefix_def)
qed (simp_all add: tick_def emit_def pollOffsetsFrom_append)

lemma pollOffsets_reach:
  "(run_step cfg rt)\<^sup>*\<^sup>* s s' \<Longrightarrow> logPrefix rt s \<Longrightarrow> pollOffsetsFrom 0 (st_trace s) \<Longrightarrow>
   pollOffsetsFrom 0 (st_trace s')"
proof (induction rule: rtranclp_induct)
  case base
  then show ?case by simp
next
  case (step y z)
  from step.hyps(1) step.prems(1) have "logPrefix rt y" by (rule logPrefix_reach)
  with step show ?case by (auto intro: pollOffsets_step)
qed

lemma minor_not_turn: "minorEffect x \<Longrightarrow> x \<noteq> StreamTurn"
  by (cases x) simp_all

lemma turnFirst_step: "run_step cfg rt s s' \<Longrightarrow> turnFirst s \<Longrightarrow> turnFirst s'"
proof (induction rule: run_step.induct)
  case (handled s src)
  let ?e = "sessionLog rt ! st_offset s"
  obtain ext where ext: "st_trace (stateOf (handleEvent cfg rt ?e
              (emit (Handled src ?e) (s\<lparr>st_offset := Suc (st_offset s)\<rparr>))))
            = st_trace s @ (st_clock s, Handled src ?e) # ext"
      "\<forall>x\<in>set ext. minorEffect (snd x) \<and> fst x = st_clock s"
    using handled_trace by blast
  from ext(2) have "\<forall>x\<in>set ext. snd x \<noteq> StreamTurn" using minor_not_turn by blast
  with ext(1) handled show ?case by (auto simp: turnFirst_def handled_state)
qed (auto simp: turnFirst_def tick_def emit_def)

lemma turnFirst_reach: "(run_step cfg rt)\<^sup>*\<^sup>* s s' \<Longrightarrow> turnFirst s \<Longrightarrow> turnFirst s'"
  by (induction rule: rtranclp_induct) (auto intro: turnFirst_step)

lemma minor_not_fetch: "minorEffect x \<Longrightarrow> \<not> fetches x \<and> x \<noteq> TerminateSession"
  by (cases x) simp_all

lemma beforeDeadline_step:
  "run_step cfg rt s s' \<Longrightarrow> beforeDeadline rt (st_trace s) \<Longrightarrow> beforeDeadline rt (st_trace s')"
proof (induction rule: run_step.induct)
  case (handled s src)
  let ?e = "sessionLog rt ! st_offset s"
  obtain ext where ext: "st_trace (stateOf (handleEvent cfg rt ?e
              (emit (Handled src ?e) (s\<lparr>st_offset := Suc (st_offset s)\<rparr>))))
            = st_trace s @ (st_clock s, Handled src ?e) # ext"
      "\<forall>x\<in>set ext. minorEffect (snd x) \<and> fst x = st_clock s"
    using handled_trace by blast
  from ext(2) have m: "\<forall>x\<in>set ext. \<not> fetches (snd x) \<and> snd x \<noteq> TerminateSession"
    using minor_not_fetch by blast
  have "fetches (Handled src ?e) \<longrightarrow> st_clock s < deadline rt"
    using handled(3) by (cases src) (simp_all add: aborted_def)
  with ext(1) m handled(4) show ?case by (auto simp: beforeDeadline_def)
qed (auto simp: beforeDeadline_def tick_def emit_def aborted_def)

lemma beforeDeadline_reach:
  "(run_step cfg rt)\<^sup>*\<^sup>* s s' \<Longrightarrow> beforeDeadline rt (st_trace s) \<Longrightarrow>
   beforeDeadline rt (st_trace s')"
  by (induction rule: rtranclp_induct) (auto intro: beforeDeadline_step)

lemma filesTracked_step: "run_step cfg rt s s' \<Longrightarrow> filesTracked s \<Longrightarrow> filesTracked s'"
proof (induction rule: run_step.induct)
  case (handled s src)
  let ?e = "sessionLog rt ! st_offset s"
  obtain ext where ext: "st_trace (stateOf (handleEvent cfg rt ?e
              (emit (Handled src ?e) (s\<lparr>st_offset := Suc (st_offset s)\<rparr>))))
            = st_trace s @ (st_clock s, Handled src ?e) # ext"
      "\<forall>x\<in>set ext. minorEffect (snd x) \<and> fst x = st_clock s"
    using handled_trace by blast
  from ext(2) have "handledEvents ext = []" by (intro handledEvents_minor) simp
  with ext(1) handled(4) show ?case
    by (simp add: filesTracked_def files_handleEvent handledEvents_snoc_handled emit_def
        fold_setAdd_firstOccurrences)
qed (simp_all add: filesTracked_def tick_def emit_def)

lemma filesTracked_reach: "(run_step cfg rt)\<^sup>*\<^sup>* s s' \<Longrightarrow> filesTracked s \<Longrightarrow> filesTracked s'"
  by (induction rule: rtranclp_induct) (auto intro: filesTracked_step)

text \<open>With a quiet session log, neither latch is ever set.\<close>

lemma unlatched_step:
  "run_step cfg rt s s' \<Longrightarrow> \<forall>e\<in>set (sessionLog rt). quiet e \<Longrightarrow>
   \<not> st_sawFailed s \<and> \<not> st_sawCompleted s \<Longrightarrow> \<not> st_sawFailed s' \<and> \<not> st_sawCompleted s'"
proof (induction rule: run_step.induct)
  case (handled s src)
  from handled(2,4) have "quiet (sessionLog rt ! st_offset s)" by simp
  from flags_handleEvent [OF this] handled(5) show ?case by (simp add: emit_def)
qed (simp_all add: tick_def emit_def)

lemma unlatched_reach:
  "(run_step cfg rt)\<^sup>*\<^sup>* s s' \<Longrightarrow> \<forall>e\<in>set (sessionLog rt). quiet e \<Longrightarrow>
   \<not> st_sawFailed s \<and> \<not> st_sawCompleted s \<Longrightarrow> \<not> st_sawFailed s' \<and> \<not> st_sawCompleted s'"
  by (induction rule: rtranclp_induct) (auto dest: unlatched_step)

lemma finalize_files:
  "filesModified (fst (finalizeResult ws result d)) = filesModified result
   \<or> (filesModified result = [] \<and> d)"
  using finalizeResult_changed [of ws result d] by (cases "fst (finalizeResult ws result d) = result") auto

lemma finish_Result:
  "\<exists>r s'. finish cfg rt result s = Result r s'
      \<and> r = fst (finalizeResult (workspace rt) result (detectFileChanges cfg))
      \<and> s' = fold (\<lambda>c. emit (Git c)) (snd (finalizeResult (workspace rt) result
                (detectFileChanges cfg))) s"
  by (simp add: finish_def split: prod.split)

lemma files_resultOf [simp]: "filesModified (resultOf cfg s ok r summ err) = st_filesModified s"
  by (simp add: resultOf_def)

lemma finish_sound:
  assumes "filesModified result = st_filesModified s"
    and "st_sawFailed s \<or> st_sawCompleted s \<or> (\<exists>e\<in>set (handledEvents (st_trace s)). \<not> quiet e)"
  shows "resultSound cfg (finish cfg rt result s)"
proof -
  obtain r s' where f: "finish cfg rt result s = Result r s'"
    "r = fst (finalizeResult (workspace rt) result (detectFileChanges cfg))"
    "s' = fold (\<lambda>c. emit (Git c)) (snd (finalizeResult (workspace rt) result
                (detectFileChanges cfg))) s"
    using finish_Result by blast
  from f(3) have files: "st_filesModified s' = st_filesModified s" by (simp add: files_fold_git)
  from f(3) have flags: "st_sawFailed s' = st_sawFailed s" "st_sawCompleted s' = st_sawCompleted s"
    by (simp_all add: flags_fold_git)
  from f(3) extends_fold_git [of s] obtain ext where "st_trace s' = st_trace s @ ext"
    by (auto simp: extends_def)
  then have tr: "set (handledEvents (st_trace s)) \<subseteq> set (handledEvents (st_trace s'))" by simp
  from finalize_files [of "workspace rt" result "detectFileChanges cfg"] f(2) assms(1) files
  have 1: "filesModified r = st_filesModified s'
           \<or> (st_filesModified s' = [] \<and> detectFileChanges cfg)" by auto
  from assms(2) flags tr
  have 2: "st_sawFailed s' \<or> st_sawCompleted s'
           \<or> (\<exists>e\<in>set (handledEvents (st_trace s')). \<not> quiet e)" by auto
  from 1 2 f(1) show ?thesis by (simp add: resultSound_def)
qed

lemma handled_sound:
  "resultSound cfg (handleEvent cfg rt event
      (emit (Handled src event) (s\<lparr>st_offset := n\<rparr>)))"
proof (cases event)
  case (SessionEnded rsn m)
  let ?s = "emit (Handled src event) (s\<lparr>st_offset := n\<rparr>)"
  have "event \<in> set (handledEvents (st_trace ?s))" by (simp add: emit_def handledEvents_def)
  moreover from SessionEnded have "\<not> quiet event" by simp
  ultimately have "\<exists>e\<in>set (handledEvents (st_trace ?s)). \<not> quiet e" by blast
  then have "resultSound cfg (finish cfg rt
      (resultOf cfg ?s (rsn = Completed) rsn (buildSummary (st_filesModified ?s)) m) ?s)"
    by (intro finish_sound) simp_all
  with SessionEnded show ?thesis by (simp add: handleEvent_def)
qed (simp_all add: handleEvent_def resultSound_def split: sum.split option.split)

lemma handleEvent_noBreak: "noBreak (handleEvent cfg rt event s)"
  by (cases event)
     (simp_all add: handleEvent_def noBreak_def finish_def split: sum.split option.split prod.split)

lemma handlePage_sound: "resultSound cfg (handlePage cfg rt es s)"
proof (induction es arbitrary: s)
  case Nil
  then show ?case by (simp add: resultSound_def)
next
  case (Cons e es)
  let ?r = "handleEvent cfg rt e (emit (Handled Polled e) (s\<lparr>st_offset := Suc (st_offset s)\<rparr>))"
  have h: "resultSound cfg ?r" by (rule handled_sound)
  show ?case
  proof (cases ?r)
    case (Next s')
    with Cons.IH [of s'] show ?thesis by simp
  qed (use h in \<open>simp_all add: resultSound_def\<close>)
qed

lemma handlePage_noBreak: "noBreak (handlePage cfg rt es s)"
proof (induction es arbitrary: s)
  case Nil
  then show ?case by (simp add: noBreak_def)
next
  case (Cons e es)
  let ?r = "handleEvent cfg rt e (emit (Handled Polled e) (s\<lparr>st_offset := Suc (st_offset s)\<rparr>))"
  have h: "noBreak ?r" by (rule handleEvent_noBreak)
  show ?case
  proof (cases ?r)
    case (Next s')
    with Cons.IH [of s'] show ?thesis by simp
  qed (use h in \<open>simp_all add: noBreak_def\<close>)
qed

lemma streamLoop_sound: "resultSound cfg (streamLoop cfg rt items s)"
proof (induction items arbitrary: s)
  case Nil
  then show ?case by (simp add: resultSound_def)
next
  case (Cons item items)
  show ?case
  proof (cases item)
    case (SError err)
    then show ?thesis by (simp add: resultSound_def streamCatch_def)
  next
    case (SEvent e)
    let ?r = "handleEvent cfg rt e
                (emit (Handled Streamed e) ((tick s)\<lparr>st_offset := Suc (st_offset s)\<rparr>))"
    have h: "resultSound cfg ?r" by (rule handled_sound)
    show ?thesis
    proof (cases ?r)
      case (Next s')
      with Cons.IH [of s'] SEvent show ?thesis by (simp add: resultSound_def)
    qed (use h SEvent in \<open>simp_all add: resultSound_def streamCatch_def\<close>)
  qed
qed

lemma pollEvents_sound: "resultSound cfg (pollEvents cfg rt s) \<and> noBreak (pollEvents cfg rt s)"
proof (induction cfg rt s rule: pollEvents.induct)
  case (1 cfg rt s)
  let ?s = "tick (emit (GetEvents (st_offset s) 100) s)"
  show ?case
  proof (cases "aborted rt s")
    case True
    then show ?thesis by (simp add: resultSound_def noBreak_def)
  next
    case False
    show ?thesis
    proof (cases "getEvents rt (st_clock s) (st_offset s) 100")
      case (Inl e)
      with False show ?thesis by (simp add: resultSound_def noBreak_def)
    next
      case (Inr response)
      have h: "resultSound cfg (handlePage cfg rt (fst response) ?s)"
        "noBreak (handlePage cfg rt (fst response) ?s)"
        by (rule handlePage_sound, rule handlePage_noBreak)
      show ?thesis
      proof (cases "handlePage cfg rt (fst response) ?s")
        case (Next s')
        show ?thesis
        proof (cases "snd response \<and> fst response \<noteq> []")
          case True
          with "1.IH" [OF False Inr Next] False Inr Next show ?thesis by simp
        next
          case no: False
          with False Inr Next show ?thesis by (auto simp: resultSound_def noBreak_def)
        qed
      qed (use h False Inr in \<open>simp_all add: resultSound_def noBreak_def\<close>)
    qed
  qed
qed

lemma mainLoop_sound: "resultSound cfg (mainLoop cfg rt s) \<and> noBreak (mainLoop cfg rt s)"
proof (induction cfg rt s rule: mainLoop.induct)
  case (1 cfg rt s)
  let ?s0 = "emit StreamTurn (s\<lparr>st_sentTurn := True\<rparr>)"
  let ?first = "if \<not> st_sentTurn s then streamLoop cfg rt (streamItems rt) ?s0 else Next s"
  have first: "resultSound cfg ?first"
    by (simp add: streamLoop_sound) (simp add: resultSound_def)
  show ?case
  proof (cases "aborted rt s")
    case True
    then show ?thesis by (simp add: resultSound_def noBreak_def)
  next
    case False
    show ?thesis
    proof (cases ?first)
      case (Next s1)
      have p: "resultSound cfg (pollEvents cfg rt s1)" "noBreak (pollEvents cfg rt s1)"
        using pollEvents_sound by simp_all
      show ?thesis
      proof (cases "pollEvents cfg rt s1")
        case n2: (Next s2)
        show ?thesis
        proof (cases "st_sawFailed s2")
          case True
          have "resultSound cfg (finish cfg rt (failedItemResult cfg s2) s2)"
            using True by (intro finish_sound) (simp_all add: failedItemResult_def)
          moreover have "noBreak (finish cfg rt (failedItemResult cfg s2) s2)"
            using finish_Result [of cfg rt "failedItemResult cfg s2" s2] by (auto simp: noBreak_def)
          ultimately show ?thesis using False Next n2 True by simp
        next
          case nf: False
          show ?thesis
          proof (cases "st_sawCompleted s2")
            case True
            have "resultSound cfg (finish cfg rt (completedItemResult cfg s2) s2)"
              using True by (intro finish_sound) (simp_all add: completedItemResult_def)
            moreover have "noBreak (finish cfg rt (completedItemResult cfg s2) s2)"
              using finish_Result [of cfg rt "completedItemResult cfg s2" s2]
              by (auto simp: noBreak_def)
            ultimately show ?thesis using False Next n2 nf True by simp
          next
            case nc: False
            from "1.IH" [OF False Next n2 nf nc] False Next n2 nf nc show ?thesis by simp
          qed
        qed
      qed (use p False Next in \<open>simp_all add: resultSound_def noBreak_def\<close>)
    qed (use first False in \<open>simp_all add: resultSound_def noBreak_def\<close>)
  qed
qed



lemma minor_not_delay: "minorEffect x \<Longrightarrow> x \<noteq> Delay d"
  by (cases x) simp_all

lemma delaysFixed_step:
  "run_step cfg rt s s' \<Longrightarrow> delaysFixed (st_trace s) \<Longrightarrow> delaysFixed (st_trace s')"
proof (induction rule: run_step.induct)
  case (handled s src)
  let ?e = "sessionLog rt ! st_offset s"
  obtain ext where ext: "st_trace (stateOf (handleEvent cfg rt ?e
              (emit (Handled src ?e) (s\<lparr>st_offset := Suc (st_offset s)\<rparr>))))
            = st_trace s @ (st_clock s, Handled src ?e) # ext"
      "\<forall>x\<in>set ext. minorEffect (snd x) \<and> fst x = st_clock s"
    using handled_trace by blast
  from ext(2) have "\<forall>x\<in>set ext. \<forall>d. snd x \<noteq> Delay d" using minor_not_delay by blast
  with ext(1) handled(4) show ?case by (auto simp: delaysFixed_def)
qed (auto simp: delaysFixed_def tick_def emit_def)

lemma delaysFixed_reach:
  "(run_step cfg rt)\<^sup>*\<^sup>* s s' \<Longrightarrow> delaysFixed (st_trace s) \<Longrightarrow> delaysFixed (st_trace s')"
  by (induction rule: rtranclp_induct) (auto intro: delaysFixed_step)

text \<open>The loop is left only after the deadline.\<close>

lemma streamLoop_Break: "streamLoop cfg rt items s = Break s' \<Longrightarrow> aborted rt s'"
proof (induction items arbitrary: s)
  case Nil
  then show ?case by simp
next
  case (Cons item items)
  show ?case
  proof (cases item)
    case (SError err)
    with Cons.prems show ?thesis by (simp add: streamCatch_def split: if_splits)
  next
    case (SEvent e)
    let ?r = "handleEvent cfg rt e
                (emit (Handled Streamed e) ((tick s)\<lparr>st_offset := Suc (st_offset s)\<rparr>))"
    have nb: "noBreak ?r" by (rule handleEvent_noBreak)
    show ?thesis
    proof (cases ?r)
      case (Next s1)
      with Cons SEvent show ?thesis by (simp split: if_splits)
    qed (use nb Cons.prems SEvent in
        \<open>simp_all add: noBreak_def streamCatch_def split: if_splits\<close>)
  qed
qed

lemma mainLoop_Next: "mainLoop cfg rt s = Next s' \<Longrightarrow> aborted rt s'"
proof (induction cfg rt s rule: mainLoop.induct)
  case (1 cfg rt s)
  let ?s0 = "emit StreamTurn (s\<lparr>st_sentTurn := True\<rparr>)"
  let ?first = "if \<not> st_sentTurn s then streamLoop cfg rt (streamItems rt) ?s0 else Next s"
  show ?case
  proof (cases "aborted rt s")
    case True
    with "1.prems" show ?thesis by simp
  next
    case False
    show ?thesis
    proof (cases ?first)
      case (Next s1)
      show ?thesis
      proof (cases "pollEvents cfg rt s1")
        case n2: (Next s2)
        show ?thesis
        proof (cases "st_sawFailed s2 \<or> st_sawCompleted s2")
          case True
          with "1.prems" False Next n2
            finish_Result [of cfg rt "failedItemResult cfg s2" s2]
            finish_Result [of cfg rt "completedItemResult cfg s2" s2]
          show ?thesis by (auto split: if_splits)
        next
          case no: False
          with "1.IH" [OF False Next n2] "1.prems" False Next n2 show ?thesis by simp
        qed
      qed (use "1.prems" False Next in simp_all)
    next
      case (Break s1)
      then have "streamLoop cfg rt (streamItems rt) ?s0 = Break s1" by (simp split: if_splits)
      then have "aborted rt s1" by (rule streamLoop_Break)
      with "1.prems" False Break show ?thesis by simp
    qed (use "1.prems" False in simp_all)
  qed
qed



text \<open>Initial state\<close>

lemma initial_invariants:
  "logPrefix rt initialState" "pollOffsetsFrom 0 (st_trace initialState)"
  "turnFirst initialState" "beforeDeadline rt (st_trace initialState)"
  "filesTracked initialState" "delaysFixed (st_trace initialState)"
  "\<not> st_sawFailed initialState \<and> \<not> st_sawCompleted initialState"
  "st_sentTurn initialState \<or> st_offset initialState = 0"
  by (simp_all add: initialState_def logPrefix_def turnFirst_def beforeDeadline_def
      filesTracked_def delaysFixed_def firstOccurrences_def)

lemma loop_reach:
  "(run_step cfg rt)\<^sup>*\<^sup>* initialState (stateOf (mainLoop cfg rt initialState))"
  by (rule reach_mainLoop) (simp add: initialState_def)

lemma afterLoop_timeout:
  "\<exists>r s'. finish cfg rt (timeoutResult cfg (requestTermination terminate s) detail)
             (requestTermination terminate s) = Result r s'
     \<and> r = fst (finalizeResult (workspace rt)
                  (timeoutResult cfg (requestTermination terminate s) detail)
                  (detectFileChanges cfg))
     \<and> afterLoop s s'
     \<and> terminations (st_trace s') = terminations (st_trace s) + 1
     \<and> (terminate \<noteq> None \<longrightarrow> (st_clock s, Log ''Failed to terminate session'') \<in> set (st_trace s'))"
proof -
  let ?t = "requestTermination terminate s"
  obtain r s' where f: "finish cfg rt (timeoutResult cfg ?t detail) ?t = Result r s'"
    "r = fst (finalizeResult (workspace rt) (timeoutResult cfg ?t detail) (detectFileChanges cfg))"
    "s' = fold (\<lambda>c. emit (Git c)) (snd (finalizeResult (workspace rt)
              (timeoutResult cfg ?t detail) (detectFileChanges cfg))) ?t"
    using finish_Result by blast
  from f(3) extends_fold_git [of ?t] have e: "extends ?t s'" by simp
  then obtain ext where ext: "st_trace s' = st_trace ?t @ ext"
    "\<forall>x\<in>set ext. minorEffect (snd x) \<and> fst x = st_clock ?t"
    by (auto simp: extends_def)
  have m: "filter (\<lambda>x. snd x = TerminateSession) ext = []"
    using ext(2) minor_not_fetch by (auto simp: filter_empty_conv)
  have t: "st_trace ?t = st_trace s @ (st_clock s, TerminateSession)
             # (case terminate of None \<Rightarrow> []
                | Some e \<Rightarrow> [(st_clock s, Log ''Failed to terminate session'')])"
    "st_clock ?t = st_clock s" "st_filesModified ?t = st_filesModified s"
    "st_offset ?t = st_offset s"
    by (simp_all add: requestTermination_def emit_def split: option.split)
  from e t ext have "afterLoop s s'"
    by (auto simp: afterLoop_def extends_def files_fold_git f(3) split: option.splits)
  moreover from ext(1) t(1) m have "terminations (st_trace s') = terminations (st_trace s) + 1"
    by (simp add: terminations_def split: option.split)
  moreover from ext(1) t(1)
  have "terminate \<noteq> None \<longrightarrow> (st_clock s, Log ''Failed to terminate session'') \<in> set (st_trace s')"
    by auto
  ultimately show ?thesis using f(1,2) by blast
qed

lemma afterLoop_refl: "afterLoop s s"
  by (simp add: afterLoop_def)

text \<open>The three ways a run ends.\<close>

lemma run_cases:
  obtains (result) r s where "mainLoop cfg rt initialState = Result r s"
      "runSandboxAgent cfg rt terminate = Result r s"
  | (raised) e s where "mainLoop cfg rt initialState = Raise e s" "\<not> aborted rt s"
      "runSandboxAgent cfg rt terminate = Raise e s"
  | (timeout) s r s' detail where "stateOf (mainLoop cfg rt initialState) = s" "aborted rt s"
      "resultIn (mainLoop cfg rt initialState) = None"
      "runSandboxAgent cfg rt terminate = Result r s'"
      "r = fst (finalizeResult (workspace rt)
                  (timeoutResult cfg (requestTermination terminate s) detail)
                  (detectFileChanges cfg))"
      "afterLoop s s'" "terminations (st_trace s') = terminations (st_trace s) + 1"
      "terminate \<noteq> None \<longrightarrow> (st_clock s, Log ''Failed to terminate session'') \<in> set (st_trace s')"
proof (cases "mainLoop cfg rt initialState")
  case (Next s)
  then have a: "aborted rt s" by (rule mainLoop_Next)
  obtain r s' where "finish cfg rt (timeoutResult cfg (requestTermination terminate s)
        ''session terminated'') (requestTermination terminate s) = Result r s'"
    "r = fst (finalizeResult (workspace rt)
                  (timeoutResult cfg (requestTermination terminate s) ''session terminated'')
                  (detectFileChanges cfg))"
    "afterLoop s s'" "terminations (st_trace s') = terminations (st_trace s) + 1"
    "terminate \<noteq> None \<longrightarrow> (st_clock s, Log ''Failed to terminate session'') \<in> set (st_trace s')"
    using afterLoop_timeout [of cfg rt terminate s "''session terminated''"] by blast
  with Next a show ?thesis
    by (intro timeout [of s r s' "''session terminated''"])
       (simp_all add: runSandboxAgent_def resultIn_def)
next
  case (Result r s)
  then show ?thesis by (intro result [of r s]) (simp_all add: runSandboxAgent_def)
next
  case (Raise e s)
  show ?thesis
  proof (cases "aborted rt s")
    case True
    obtain r s' where "finish cfg rt (timeoutResult cfg (requestTermination terminate s)
          (errorText e)) (requestTermination terminate s) = Result r s'"
      "r = fst (finalizeResult (workspace rt)
                    (timeoutResult cfg (requestTermination terminate s) (errorText e))
                    (detectFileChanges cfg))"
      "afterLoop s s'" "terminations (st_trace s') = terminations (st_trace s) + 1"
      "terminate \<noteq> None \<longrightarrow> (st_clock s, Log ''Failed to terminate session'') \<in> set (st_trace s')"
      using afterLoop_timeout [of cfg rt terminate s "errorText e"] by blast
    with Raise True show ?thesis
      by (intro timeout [of s r s' "errorText e"])
         (simp_all add: runSandboxAgent_def resultIn_def)
  next
    case False
    with Raise show ?thesis by (intro raised [of e s]) (simp_all add: runSandboxAgent_def)
  qed
next
  case (Break s)
  with mainLoop_sound [of cfg rt initialState] show ?thesis by (simp add: noBreak_def)
qed

lemma run_afterLoop:
  "afterLoop (stateOf (mainLoop cfg rt initialState)) (stateOf (runSandboxAgent cfg rt terminate))"
  by (cases rule: run_cases [of cfg rt terminate]) (simp_all add: afterLoop_refl)

lemma tail_handled:
  "\<forall>x\<in>set ext. snd x = TerminateSession \<or> minorEffect (snd x) \<Longrightarrow> handledEvents ext = []"
proof (induction ext)
  case Nil
  then show ?case by simp
next
  case (Cons x ext)
  obtain t e where x: "x = (t, e)" by (cases x)
  with Cons.prems have "e = TerminateSession \<or> minorEffect e" by simp
  then have "handledOf (t, e) = []" by (cases e) auto
  with Cons x show ?case by (simp add: handledEvents_def)
qed

lemma tail_pollOffsets:
  "\<forall>x\<in>set ext. snd x = TerminateSession \<or> minorEffect (snd x) \<Longrightarrow> pollOffsetsFrom n ext"
proof (induction ext)
  case Nil
  then show ?case by simp
next
  case (Cons x ext)
  obtain t e where x: "x = (t, e)" by (cases x)
  with Cons.prems have "e = TerminateSession \<or> minorEffect e" by simp
  with Cons x show ?case by (cases e) auto
qed

lemma tail_plain:
  assumes "snd x = TerminateSession \<or> minorEffect (snd x)"
  shows "snd x \<noteq> StreamTurn" and "snd x \<noteq> Delay d" and "\<not> fetches (snd x)"
  using assms by (cases "snd x"; simp)+





lemma stream_fails_at_once:
  assumes "streamCount rt = 0" and "streamEnd rt = Some err" and "1 < deadline rt"
  shows "streamLoop cfg rt (streamItems rt) turnSent
           = (if isRetryableStreamError err then Next (tick turnSent)
              else Raise err (tick turnSent))"
    and "\<not> aborted rt (tick turnSent)"
  using assms
  by (simp_all add: streamItems_def streamCatch_def aborted_def tick_def turnSent_def emit_def
      initialState_def)

lemma final_invariants:
  fixes cfg rt terminate
  defines "s \<equiv> stateOf (runSandboxAgent cfg rt terminate)"
  shows "\<forall>x\<in>set (tl (st_trace s)). snd x \<noteq> StreamTurn"
    and "pollOffsetsFrom 0 (st_trace s)"
    and "handledEvents (st_trace s) = take (st_offset s) (sessionLog rt)"
    and "\<forall>x\<in>set (st_trace s). \<forall>d. snd x = Delay d \<longrightarrow> d = 1000"
    and "st_filesModified s
           = firstOccurrences (concat (map writtenPaths (handledEvents (st_trace s))))"
    and "\<forall>x\<in>set (st_trace s). fetches (snd x) \<longrightarrow> fst x < deadline rt"
proof -
  define l where "l = stateOf (mainLoop cfg rt initialState)"
  have r: "(run_step cfg rt)\<^sup>*\<^sup>* initialState l" unfolding l_def by (rule loop_reach)
  from run_afterLoop [of cfg rt terminate] obtain ext where
    ext: "st_trace s = st_trace l @ ext"
      "\<forall>x\<in>set ext. (snd x = TerminateSession \<or> minorEffect (snd x)) \<and> fst x = st_clock l"
      "st_filesModified s = st_filesModified l" "st_offset s = st_offset l"
    unfolding afterLoop_def s_def l_def by blast
  from ext(2) have plain: "\<forall>x\<in>set ext. snd x = TerminateSession \<or> minorEffect (snd x)" by simp
  have h: "handledEvents ext = []" using plain by (rule tail_handled)
  have lp: "logPrefix rt l" using r initial_invariants(1) by (rule logPrefix_reach)
  with ext(1,4) h show "handledEvents (st_trace s) = take (st_offset s) (sessionLog rt)"
    by (simp add: logPrefix_def)
  have "pollOffsetsFrom 0 (st_trace l)"
    using r initial_invariants(1,2) by (rule pollOffsets_reach)
  with ext(1) tail_pollOffsets [OF plain] show "pollOffsetsFrom 0 (st_trace s)"
    by (simp add: pollOffsetsFrom_append)
  have "filesTracked l" using r initial_invariants(5) by (rule filesTracked_reach)
  with ext(1,3) h show "st_filesModified s
           = firstOccurrences (concat (map writtenPaths (handledEvents (st_trace s))))"
    by (simp add: filesTracked_def)
  have "delaysFixed (st_trace l)" using r initial_invariants(6) by (rule delaysFixed_reach)
  with ext(1) plain tail_plain(2) show "\<forall>x\<in>set (st_trace s). \<forall>d. snd x = Delay d \<longrightarrow> d = 1000"
    by (auto simp: delaysFixed_def)
  have "beforeDeadline rt (st_trace l)"
    using r initial_invariants(4) by (rule beforeDeadline_reach)
  with ext(1) plain tail_plain(3) show "\<forall>x\<in>set (st_trace s). fetches (snd x) \<longrightarrow> fst x < deadline rt"
    by (auto simp: beforeDeadline_def)
  have tf: "turnFirst l" using r initial_invariants(3) by (rule turnFirst_reach)
  show "\<forall>x\<in>set (tl (st_trace s)). snd x \<noteq> StreamTurn"
  proof (cases "st_sentTurn l")
    case True
    with tf obtain t tr where "st_trace l = (t, StreamTurn) # tr"
      "\<forall>x\<in>set tr. snd x \<noteq> StreamTurn" by (auto simp: turnFirst_def)
    with ext(1) plain tail_plain(1) show ?thesis by auto
  next
    case False
    with tf have "st_trace l = []" by (simp add: turnFirst_def)
    with ext(1) have "st_trace s = ext" by simp
    show ?thesis
    proof
      fix x assume "x \<in> set (tl (st_trace s))"
      then have "x \<in> set (st_trace s)" by (cases "st_trace s") simp_all
      with \<open>st_trace s = ext\<close> plain have "snd x = TerminateSession \<or> minorEffect (snd x)"
        by simp
      then show "snd x \<noteq> StreamTurn" by (rule tail_plain(1))
    qed
  qed
qed






lemma run_result_files:
  assumes "runSandboxAgent cfg rt terminate = Result r s"
  shows "filesModified r = st_filesModified s
         \<or> (st_filesModified s = [] \<and> detectFileChanges cfg)"
proof (cases rule: run_cases [of cfg rt terminate])
  case (result r' s')
  with mainLoop_sound [of cfg rt initialState] assms show ?thesis
    by (simp add: resultSound_def)
next
  case (raised e s')
  with assms show ?thesis by simp
next
  case (timeout l r' s' detail)
  have "filesModified (timeoutResult cfg (requestTermination terminate l) detail)
      = st_filesModified l"
    by (simp add: timeoutResult_def requestTermination_def emit_def split: option.split)
  with finalize_files [of "workspace rt" "timeoutResult cfg (requestTermination terminate l) detail"
      "detectFileChanges cfg"] timeout(5,6) assms timeout(4)
  show ?thesis by (auto simp: afterLoop_def)
qed

lemma timeoutResult_independent:
  "timeoutResult cfg (requestTermination terminate s) detail = timeoutResult cfg s detail"
  by (simp add: timeoutResult_def resultOf_def requestTermination_def emit_def split: option.split)

lemma run_independent:
  "resultIn (runSandboxAgent cfg rt terminate) = resultIn (runSandboxAgent cfg rt terminate')
   \<and> raisedIn (runSandboxAgent cfg rt terminate) = raisedIn (runSandboxAgent cfg rt terminate')"
proof -
  define l where "l = mainLoop cfg rt initialState"
  have f: "resultIn (finish cfg rt (timeoutResult cfg (requestTermination t s) d)
              (requestTermination t s))
         = Some (fst (finalizeResult (workspace rt) (timeoutResult cfg s d)
                   (detectFileChanges cfg)))
       \<and> raisedIn (finish cfg rt (timeoutResult cfg (requestTermination t s) d)
              (requestTermination t s)) = None" for t s d
    by (simp add: finish_def resultIn_def raisedIn_def timeoutResult_independent
        split: prod.split)
  show ?thesis
    unfolding runSandboxAgent_def l_def [symmetric]
    by (cases l) (simp_all add: f)
qed

lemma quiet_run:
  assumes "\<forall>e\<in>set (sessionLog rt). quiet e"
  shows "(\<exists>r s. runSandboxAgent cfg rt terminate = Result r s
            \<and> \<not> success r \<and> reason r = Timeout
            \<and> terminations (st_trace s) = 1
            \<and> (terminate \<noteq> None \<longrightarrow>
                 (\<exists>t. (t, Log ''Failed to terminate session'') \<in> set (st_trace s))))
         \<or> (\<exists>e s. runSandboxAgent cfg rt terminate = Raise e s
            \<and> st_clock s < deadline rt \<and> terminations (st_trace s) = 0)"
proof -
  define l where "l = stateOf (mainLoop cfg rt initialState)"
  have r: "(run_step cfg rt)\<^sup>*\<^sup>* initialState l" unfolding l_def by (rule loop_reach)
  have bd: "beforeDeadline rt (st_trace l)"
    using r initial_invariants(4) by (rule beforeDeadline_reach)
  then have t0: "terminations (st_trace l) = 0"
    by (auto simp: beforeDeadline_def terminations_def filter_empty_conv)
  have lp: "logPrefix rt l" using r initial_invariants(1) by (rule logPrefix_reach)
  then have "set (handledEvents (st_trace l)) \<subseteq> set (sessionLog rt)"
    by (auto simp: logPrefix_def dest: in_set_takeD)
  with assms have q: "\<forall>e\<in>set (handledEvents (st_trace l)). quiet e" by blast
  have u: "\<not> st_sawFailed l \<and> \<not> st_sawCompleted l"
    using r assms initial_invariants(7) by (rule unlatched_reach)
  show ?thesis
  proof (cases rule: run_cases [of cfg rt terminate])
    case (result r' s')
    with mainLoop_sound [of cfg rt initialState] q u show ?thesis
      by (auto simp: resultSound_def l_def)
  next
    case (raised e s')
    with t0 show ?thesis by (auto simp: aborted_def l_def)
  next
    case (timeout l' r' s' detail)
    from timeout(5) finalizeResult_fields [of "workspace rt"
        "timeoutResult cfg (requestTermination terminate l') detail" "detectFileChanges cfg"]
    have "\<not> success r' \<and> reason r' = Timeout"
      by (simp add: timeoutResult_def resultOf_def)
    with timeout t0 show ?thesis by (auto simp: l_def)
  qed
qed

subsection \<open>The effects of a run are in order\<close>



lemma protocol_tick [simp]: "st_trace (tick s) = st_trace s"
  by (simp add: tick_def)

lemma latched_tick [simp]: "latched (tick s) = latched s"
  by (simp add: tick_def latched_def)

lemma latched_emit [simp]: "latched (emit x s) = latched s"
  by (simp add: emit_def latched_def)




























subsection \<open>Example runs\<close>

text \<open>
  A session that starts, writes \<open>a.ts\<close>, asks a question, writes \<open>b.ts\<close>, writes
  \<open>a.ts\<close> again and ends; a runtime whose stream is refused after two events, one whose
  stream breaks with an error that is not transient, and one that never says anything.
\<close>

definition writeItem :: "string \<Rightarrow> UniversalEvent" where
  "writeItem path =
     ItemCompleted (Some \<lparr>item_status = ''in_progress'', item_kind = ''tool_call'',
       item_role = ''assistant'', item_content = [FileRef path ''write'', ToolCall ''edit'']\<rparr>)"

definition exampleLog :: "UniversalEvent list" where
  "exampleLog = [SessionStarted, writeItem ''a.ts'', QuestionRequested ''q1'', writeItem ''b.ts'',
                 writeItem ''a.ts'', SessionEnded Completed None]"




text \<open>
  A runtime that streams the whole session and whose \<open>rejectQuestion\<close> throws, and one
  with 101 events of which none is streamed.
\<close>

definition flakyRuntime :: "js_error \<Rightarrow> Runtime" where
  "flakyRuntime err =
     (exampleRuntime exampleLog 6 None 40)\<lparr>rejectQuestionError := (\<lambda>question. Some err)\<rparr>"

definition interruptedRuntime :: Runtime where
  "interruptedRuntime = flakyRuntime (Error ''Connection refused'' None)"





text \<open>\<open>firstOccurrences\<close> keeps an element where it first stands and drops its repetitions.\<close>

lemma remdups_snoc:
  "remdups (ys @ [x]) = filter (\<lambda>y. y \<noteq> x) (remdups ys) @ [x]"
  by (induction ys) auto

lemma firstOccurrences_Cons:
  "firstOccurrences (x # xs) = x # filter (\<lambda>y. y \<noteq> x) (firstOccurrences xs)"
  by (simp add: firstOccurrences_def remdups_snoc rev_filter)

lemma firstOccurrences_Nil: "firstOccurrences [] = []"
  by (simp add: firstOccurrences_def)

subsection \<open>From streaming to polling\<close>




subsection \<open>The deadline\<close>

text \<open>
  C2: when the deadline expires the runner stops consuming events. The deadline of this run
  is 2. The stream fails at once with a timeout error, the runner polls, and the deadline
  passes while the first page is awaited. The page holds two questions: the page loop of
  \<open>pollEvents\<close> handles both of them (and rejects both at the runtime) at time 2, where
  the stream loop looks at \<open>abortController.signal.aborted\<close> before every event. The
  session is then terminated once, the failure of that request is logged, and the result is
  a timeout.
\<close>

theorem timeout_page_handled_after_deadline:
  "deadline (exampleRuntime [QuestionRequested ''q1'', QuestionRequested ''q2''] 0
               (Some (DOMException ''TimeoutError'' ''t'')) 2) = 2
   \<and> st_trace (finalState exampleRunConfig
        (exampleRuntime [QuestionRequested ''q1'', QuestionRequested ''q2''] 0
           (Some (DOMException ''TimeoutError'' ''t'')) 2)
        (Some (Error ''gone'' None)))
     = [(0, StreamTurn), (1, GetEvents 0 100),
        (2, Handled Polled (QuestionRequested ''q1'')), (2, RejectQuestion ''q1''),
        (2, Handled Polled (QuestionRequested ''q2'')), (2, RejectQuestion ''q2''),
        (2, Delay 1000), (3, TerminateSession), (3, Log ''Failed to terminate session''),
        (3, Git GitStatus), (3, Git GitSymbolicRef)]
   \<and> map_option reason (resultIn (runSandboxAgent exampleRunConfig
        (exampleRuntime [QuestionRequested ''q1'', QuestionRequested ''q2''] 0
           (Some (DOMException ''TimeoutError'' ''t'')) 2)
        (Some (Error ''gone'' None)))) = Some Timeout"
  by code_simp

subsection \<open>The files modified\<close>

text \<open>
  C9, as stated: in the final result, \<open>filesModified\<close> holds exactly the paths written
  or patched in the event stream. It fails on a session that ends without a file record in
  a workspace with uncommitted changes: finalization fills the empty list with the paths
  reported by \<open>git status\<close>.
\<close>

theorem filesModified_detected_counterexample:
  "map_option filesModified (resultIn (runSandboxAgent exampleRunConfig
      ((exampleRuntime [SessionEnded Completed None] 1 None 4)\<lparr>workspace := dirtyWorkspace\<rparr>)
      None)) = Some [''src/a.ts'', ''b.txt'']
   \<and> concat (map writtenPaths (handledEvents (st_trace (finalState exampleRunConfig
      ((exampleRuntime [SessionEnded Completed None] 1 None 4)\<lparr>workspace := dirtyWorkspace\<rparr>)
      None)))) = []"
  by code_simp

text \<open>
  C9, amended: in every state of a run, and in the final state, the accumulated list holds
  exactly the paths of the file records with action write or patch among the events handled
  so far, each path once, in the order of first occurrence; the events handled are a prefix
  of the session log. The result carries the accumulated list whenever that list is not
  empty or the detection of file changes is off.
\<close>

theorem filesModified_first_occurrences:
  "((run_step cfg rt)\<^sup>*\<^sup>* initialState s \<longrightarrow>
      st_filesModified s
        = firstOccurrences (concat (map writtenPaths (handledEvents (st_trace s))))
      \<and> distinct (st_filesModified s))
   \<and> (run_step cfg rt)\<^sup>*\<^sup>* initialState (stateOf (mainLoop cfg rt initialState))
   \<and> st_filesModified (finalState cfg rt terminate)
       = firstOccurrences (concat (map writtenPaths
           (handledEvents (st_trace (finalState cfg rt terminate)))))
   \<and> handledEvents (st_trace (finalState cfg rt terminate))
       = take (st_offset (finalState cfg rt terminate)) (sessionLog rt)
   \<and> distinct (st_filesModified (finalState cfg rt terminate))
   \<and> set (st_filesModified (finalState cfg rt terminate))
       = set (concat (map writtenPaths (handledEvents (st_trace (finalState cfg rt terminate)))))
   \<and> (resultIn (runSandboxAgent cfg rt terminate) = Some r
       \<and> (st_filesModified (finalState cfg rt terminate) \<noteq> [] \<or> \<not> detectFileChanges cfg) \<longrightarrow>
       filesModified r = st_filesModified (finalState cfg rt terminate))"
proof (intro conjI impI)
  assume r: "(run_step cfg rt)\<^sup>*\<^sup>* initialState s"
  from r initial_invariants(5) have "filesTracked s" by (rule filesTracked_reach)
  then show f: "st_filesModified s
        = firstOccurrences (concat (map writtenPaths (handledEvents (st_trace s))))"
    by (simp add: filesTracked_def)
  show "distinct (st_filesModified s)" unfolding f by (rule distinct_firstOccurrences)
next
  show "(run_step cfg rt)\<^sup>*\<^sup>* initialState (stateOf (mainLoop cfg rt initialState))"
    by (rule loop_reach)
next
  show g: "st_filesModified (finalState cfg rt terminate)
       = firstOccurrences (concat (map writtenPaths
           (handledEvents (st_trace (finalState cfg rt terminate)))))"
    unfolding finalState_def by (rule final_invariants(5))
  show "distinct (st_filesModified (finalState cfg rt terminate))"
    unfolding g by (rule distinct_firstOccurrences)
  show "set (st_filesModified (finalState cfg rt terminate))
       = set (concat (map writtenPaths (handledEvents (st_trace (finalState cfg rt terminate)))))"
    unfolding g by (rule set_firstOccurrences)
  show "handledEvents (st_trace (finalState cfg rt terminate))
       = take (st_offset (finalState cfg rt terminate)) (sessionLog rt)"
    unfolding finalState_def by (rule final_invariants(3))
next
  assume h: "resultIn (runSandboxAgent cfg rt terminate) = Some r
       \<and> (st_filesModified (finalState cfg rt terminate) \<noteq> [] \<or> \<not> detectFileChanges cfg)"
  then obtain s' where s': "runSandboxAgent cfg rt terminate = Result r s'"
    by (auto simp: resultIn_def split: step.splits)
  then have "finalState cfg rt terminate = s'" by (simp add: finalState_def)
  with run_result_files [OF s'] h
  show "filesModified r = st_filesModified (finalState cfg rt terminate)" by auto
qed

theorem filesModified_first_occurrences_witness:
  "st_filesModified (stateOf (mainLoop exampleRunConfig interruptedRuntime initialState))
     = [''a.ts'', ''b.ts'']
   \<and> concat (map writtenPaths
        (handledEvents (st_trace (finalState exampleRunConfig interruptedRuntime None))))
     = [''a.ts'', ''b.ts'', ''a.ts'']
   \<and> st_filesModified (finalState exampleRunConfig interruptedRuntime None) = [''a.ts'', ''b.ts'']
   \<and> map_option filesModified (resultIn (runSandboxAgent exampleRunConfig interruptedRuntime None))
     = Some [''a.ts'', ''b.ts'']"
proof -
  let ?r = "\<lparr>success = True, sessionId = ''session-1'', reason = Completed,
     filesModified = [''a.ts'', ''b.ts''],
     summary = ''Modified 2 file(s): a.ts, b.ts'', answer = None, error = None\<rparr>"
  note a = filesModified_first_occurrences [where cfg = exampleRunConfig
      and rt = interruptedRuntime and terminate = None and r = ?r
      and s = "stateOf (mainLoop exampleRunConfig interruptedRuntime initialState)"]
  have e1: "firstOccurrences (concat (map writtenPaths (handledEvents (st_trace
              (stateOf (mainLoop exampleRunConfig interruptedRuntime initialState))))))
            = [''a.ts'', ''b.ts'']"
    by code_simp
  have e2: "concat (map writtenPaths
        (handledEvents (st_trace (finalState exampleRunConfig interruptedRuntime None))))
     = [''a.ts'', ''b.ts'', ''a.ts'']"
    by code_simp
  have e3: "firstOccurrences [''a.ts'', ''b.ts'', ''a.ts''] = [''a.ts'', ''b.ts'']"
    by code_simp
  have e4: "resultIn (runSandboxAgent exampleRunConfig interruptedRuntime None) = Some ?r"
    by code_simp
  have c1: "st_filesModified (stateOf (mainLoop exampleRunConfig interruptedRuntime initialState))
     = [''a.ts'', ''b.ts'']"
    using a [THEN conjunct1, rule_format, OF a [THEN conjunct2, THEN conjunct1], THEN conjunct1]
      e1 by simp
  have c3: "st_filesModified (finalState exampleRunConfig interruptedRuntime None)
     = [''a.ts'', ''b.ts'']"
    using a [THEN conjunct2, THEN conjunct2, THEN conjunct1] e2 e3 by simp
  have "filesModified ?r = st_filesModified (finalState exampleRunConfig interruptedRuntime None)"
    using a [THEN conjunct2, THEN conjunct2, THEN conjunct2, THEN conjunct2, THEN conjunct2,
        THEN conjunct2, rule_format] e4 c3
    by simp
  with e4 have c4: "map_option filesModified
      (resultIn (runSandboxAgent exampleRunConfig interruptedRuntime None))
     = Some [''a.ts'', ''b.ts'']"
    by simp
  show ?thesis by (intro conjI c1 e2 c3 c4)
qed

end
